theory Spec2Isabelle
  imports Main "HOL-Library.Multiset" "HOL-Library.AList"
begin

section \<open>Go strings\<close>

text \<open>
  A Go string is modelled as the list of the elements a \<^verbatim>\<open>range\<close> loop over it visits:
  the Unicode code points it encodes, as natural numbers. (A byte that belongs to no valid
  UTF-8 encoding is visited as one element by itself; it is neither white space nor an
  ASCII character, so it can stand in the list as any number above 0x10FFFF.)
  Every character models.go looks for is ASCII, one byte long, so byte offsets and element
  offsets order and slice a string alike.
\<close>

type_synonym rune = nat
type_synonym gostring = "rune list"

definition LBRACE :: rune where "LBRACE = 123"      \<comment> \<open>the opening brace\<close>
definition RBRACE :: rune where "RBRACE = 125"      \<comment> \<open>the closing brace\<close>
definition LBRACKET :: rune where "LBRACKET = 91"   \<comment> \<open>the opening square bracket\<close>
definition RBRACKET :: rune where "RBRACKET = 93"   \<comment> \<open>the closing square bracket\<close>
definition QUOTE :: rune where "QUOTE = 34"         \<comment> \<open>the double quote\<close>
definition BACKSLASH :: rune where "BACKSLASH = 92"
definition BACKTICK :: rune where "BACKTICK = 96"

text \<open>An ASCII literal of the source, as a Go string.\<close>

definition str :: "string \<Rightarrow> gostring" where
  "str s = map of_char s"

text \<open>
  \<^verbatim>\<open>unicode.IsSpace\<close>: tab, line feed, vertical tab, form feed, carriage return, space,
  U+0085, U+00A0, and the other code points of the Unicode property White_Space.
\<close>

definition isSpace :: "rune \<Rightarrow> bool" where
  "isSpace r \<longleftrightarrow>
     (9 \<le> r \<and> r \<le> 13) \<or> r = 32 \<or> r = 133 \<or> r = 160 \<or> r = 5760 \<or>
     (8192 \<le> r \<and> r \<le> 8202) \<or> r = 8232 \<or> r = 8233 \<or> r = 8239 \<or> r = 8287 \<or> r = 12288"

text \<open>\<^verbatim>\<open>strings.TrimSpace\<close>: all leading and trailing white space removed.\<close>

definition trimSpace :: "gostring \<Rightarrow> gostring" where
  "trimSpace s = rev (dropWhile isSpace (rev (dropWhile isSpace s)))"

definition hasPrefix :: "gostring \<Rightarrow> gostring \<Rightarrow> bool" where
  "hasPrefix s p \<longleftrightarrow> take (length p) s = p"

definition hasSuffix :: "gostring \<Rightarrow> gostring \<Rightarrow> bool" where
  "hasSuffix s p \<longleftrightarrow> length p \<le> length s \<and> drop (length s - length p) s = p"

definition trimPrefix :: "gostring \<Rightarrow> gostring \<Rightarrow> gostring" where
  "trimPrefix s p = (if hasPrefix s p then drop (length p) s else s)"

definition trimSuffix :: "gostring \<Rightarrow> gostring \<Rightarrow> gostring" where
  "trimSuffix s p = (if hasSuffix s p then take (length s - length p) s else s)"

text \<open>
  \<^verbatim>\<open>strings.Index\<close> and \<^verbatim>\<open>strings.LastIndex\<close> for a one-character pattern: the offset
  of the first (last) occurrence, or -1.
\<close>

fun indexRune :: "gostring \<Rightarrow> rune \<Rightarrow> int" where
  "indexRune [] c = -1"
| "indexRune (x # xs) c =
     (if x = c then 0 else (let i = indexRune xs c in if i = -1 then -1 else i + 1))"

definition lastIndexRune :: "gostring \<Rightarrow> rune \<Rightarrow> int" where
  "lastIndexRune s c =
     (let i = indexRune (rev s) c in if i = -1 then -1 else int (length s) - 1 - i)"

text \<open>The slice expression \<^verbatim>\<open>s[lo:hi]\<close>, for \<open>0 \<le> lo \<le> hi \<le> len(s)\<close>.\<close>

definition slice :: "'a list \<Rightarrow> int \<Rightarrow> int \<Rightarrow> 'a list" where
  "slice s lo hi = take (nat (hi - lo)) (drop (nat lo) s)"

text \<open>\<^verbatim>\<open>strings.Contains\<close>.\<close>

fun contains :: "gostring \<Rightarrow> gostring \<Rightarrow> bool" where
  "contains [] sub \<longleftrightarrow> sub = []"
| "contains (x # xs) sub \<longleftrightarrow> hasPrefix (x # xs) sub \<or> contains xs sub"

section \<open>The response normalizer (models.go, lines 100 to 254)\<close>

subsection \<open>isValidJSON\<close>

text \<open>
  The scan of \<^verbatim>\<open>isValidJSON\<close> keeps a stack of open braces and brackets (the top is the
  last element, as the source appends), whether it is inside a string, and whether the
  previous character was an unescaped backslash. \<open>None\<close> is the early
  \<^verbatim>\<open>return false\<close> of a closing character that does not match the top of the stack.
\<close>

type_synonym scan_state = "rune list \<times> bool \<times> bool"

fun scanChar :: "rune \<Rightarrow> scan_state \<Rightarrow> scan_state option" where
  "scanChar ch (stack, inString, escaped) =
     (if escaped then Some (stack, inString, False)
      else if ch = BACKSLASH then Some (stack, inString, True)
      else if ch = QUOTE \<and> \<not> escaped then Some (stack, \<not> inString, escaped)
      else if inString then Some (stack, inString, escaped)
      else if ch = LBRACE \<or> ch = LBRACKET then Some (stack @ [ch], inString, escaped)
      else if ch = RBRACE then
        (if length stack = 0 \<or> last stack \<noteq> LBRACE then None
         else Some (butlast stack, inString, escaped))
      else if ch = RBRACKET then
        (if length stack = 0 \<or> last stack \<noteq> LBRACKET then None
         else Some (butlast stack, inString, escaped))
      else Some (stack, inString, escaped))"

fun scanJSON :: "gostring \<Rightarrow> scan_state \<Rightarrow> scan_state option" where
  "scanJSON [] st = Some st"
| "scanJSON (ch # rest) st =
     (case scanChar ch st of None \<Rightarrow> None | Some st' \<Rightarrow> scanJSON rest st')"

definition isValidJSON :: "gostring \<Rightarrow> bool" where
  "isValidJSON content0 =
     (let content = trimSpace content0 in
      if \<not> hasPrefix content [LBRACE] \<or> \<not> hasSuffix content [RBRACE] then False
      else (case scanJSON content ([], False, False) of
              None \<Rightarrow> False
            | Some (stack, inString, escaped) \<Rightarrow> length stack = 0 \<and> \<not> inString))"

subsection \<open>fixIncompleteJSON\<close>

text \<open>
  The three counting loops of \<^verbatim>\<open>fixIncompleteJSON\<close>. Each visits every character of
  the string; none of them keeps a string mode or an escape flag.
\<close>

fun countBrackets :: "gostring \<Rightarrow> nat \<times> nat \<Rightarrow> nat \<times> nat" where
  "countBrackets [] (openBrackets, closeBrackets) = (openBrackets, closeBrackets)"
| "countBrackets (ch # rest) (openBrackets, closeBrackets) =
     (if ch = LBRACKET then countBrackets rest (openBrackets + 1, closeBrackets)
      else if ch = RBRACKET then countBrackets rest (openBrackets, closeBrackets + 1)
      else countBrackets rest (openBrackets, closeBrackets))"

fun countBraces :: "gostring \<Rightarrow> nat \<times> nat \<Rightarrow> nat \<times> nat" where
  "countBraces [] (openBraces, closeBraces) = (openBraces, closeBraces)"
| "countBraces (ch # rest) (openBraces, closeBraces) =
     (if ch = LBRACE then countBraces rest (openBraces + 1, closeBraces)
      else if ch = RBRACE then countBraces rest (openBraces, closeBraces + 1)
      else countBraces rest (openBraces, closeBraces))"

fun countQuotes :: "gostring \<Rightarrow> nat \<Rightarrow> nat" where
  "countQuotes [] quotes = quotes"
| "countQuotes (ch # rest) quotes =
     (if ch = QUOTE then countQuotes rest (quotes + 1) else countQuotes rest quotes)"

definition fixIncompleteJSON :: "gostring \<Rightarrow> gostring" where
  "fixIncompleteJSON content0 =
     (let content = trimSpace content0 in
      if content = [] then content
      else
        let content = (if \<not> hasPrefix content [LBRACE] then [LBRACE] @ content else content);
            content = (if \<not> hasSuffix content [RBRACE] then content @ [RBRACE] else content);
            (openBrackets, closeBrackets) = countBrackets content (0, 0);
            content = (if openBrackets > closeBrackets
                       then content @ replicate (openBrackets - closeBrackets) RBRACKET
                       else content);
            (openBraces, closeBraces) = countBraces content (0, 0);
            content = (if openBraces > closeBraces
                       then content @ replicate (openBraces - closeBraces) RBRACE
                       else content);
            quotes = countQuotes content 0;
            content = (if quotes mod 2 \<noteq> 0 then content @ [QUOTE] else content)
        in content)"

subsection \<open>extractJSONFromContent\<close>

text \<open>
  Lines 102 to 116 of \<^verbatim>\<open>extractJSONFromContent\<close>: the reply is trimmed, a leading
  fence with the tag json, a leading fence and a trailing fence are removed in this
  order, and the text is trimmed again after each removal.
\<close>

definition fenceJSON :: gostring where
  "fenceJSON = [BACKTICK, BACKTICK, BACKTICK] @ str ''json''"

definition fence :: gostring where
  "fence = [BACKTICK, BACKTICK, BACKTICK]"

definition stripCodeFence :: "gostring \<Rightarrow> gostring" where
  "stripCodeFence content0 =
     (let content = trimSpace content0;
          content = (if hasPrefix content fenceJSON
                     then trimSpace (trimPrefix content fenceJSON) else content);
          content = (if hasPrefix content fence
                     then trimSpace (trimPrefix content fence) else content);
          content = (if hasSuffix content fence
                     then trimSpace (trimSuffix content fence) else content)
      in content)"

definition extractJSONFromContent :: "gostring \<Rightarrow> gostring" where
  "extractJSONFromContent content0 =
     (let content = stripCodeFence content0;
          start = indexRune content LBRACE;
          end = lastIndexRune content RBRACE
      in if start = -1 \<or> end = -1 \<or> end \<le> start then content
         else
           let jsonContent = slice content start (end + 1)
           in if \<not> isValidJSON jsonContent then fixIncompleteJSON jsonContent
              else jsonContent)"

subsection \<open>The balance repair as the specification words it\<close>

text \<open>
  The specification describes the repair pass as one scan that is aware of strings: it
  tracks whether a character is inside a quoted string, with a backslash-escape flag, and
  outside a string it counts the braces and the brackets; it counts the quotes that are
  not escaped. All counts are taken over the same slice, and the missing closing braces,
  the missing closing brackets and one quote for an odd quote count are appended. This
  definition follows those words, not the source; it is what \<open>fixIncompleteJSON\<close>
  is compared with.
\<close>

fun specCounts ::
  "gostring \<Rightarrow> bool \<Rightarrow> bool \<Rightarrow> nat \<times> nat \<times> nat \<times> nat \<times> nat \<Rightarrow> nat \<times> nat \<times> nat \<times> nat \<times> nat" where
  "specCounts [] inString escaped counts = counts"
| "specCounts (ch # rest) inString escaped (oBrace, cBrace, oBracket, cBracket, quotes) =
     (if escaped then specCounts rest inString False (oBrace, cBrace, oBracket, cBracket, quotes)
      else if ch = BACKSLASH
        then specCounts rest inString True (oBrace, cBrace, oBracket, cBracket, quotes)
      else if ch = QUOTE
        then specCounts rest (\<not> inString) False (oBrace, cBrace, oBracket, cBracket, quotes + 1)
      else if inString
        then specCounts rest inString False (oBrace, cBrace, oBracket, cBracket, quotes)
      else if ch = LBRACE
        then specCounts rest inString False (oBrace + 1, cBrace, oBracket, cBracket, quotes)
      else if ch = RBRACE
        then specCounts rest inString False (oBrace, cBrace + 1, oBracket, cBracket, quotes)
      else if ch = LBRACKET
        then specCounts rest inString False (oBrace, cBrace, oBracket + 1, cBracket, quotes)
      else if ch = RBRACKET
        then specCounts rest inString False (oBrace, cBrace, oBracket, cBracket + 1, quotes)
      else specCounts rest inString False (oBrace, cBrace, oBracket, cBracket, quotes))"

definition specBalanceRepair :: "gostring \<Rightarrow> gostring" where
  "specBalanceRepair s =
     (case specCounts s False False (0, 0, 0, 0, 0) of
        (oBrace, cBrace, oBracket, cBracket, quotes) \<Rightarrow>
          s @ replicate (oBrace - cBrace) RBRACE @ replicate (oBracket - cBracket) RBRACKET
            @ (if odd quotes then [QUOTE] else []))"

subsection \<open>The repair and extraction step of a batch\<close>

text \<open>
  Lines 345 and 349 of \<^verbatim>\<open>processClassificationChunk\<close>: every reply goes through
  \<^verbatim>\<open>extractJSONFromContent\<close> and then, whether or not it is valid, through
  \<^verbatim>\<open>fixIncompleteJSON\<close>.
\<close>

definition normalizeReply :: "gostring \<Rightarrow> gostring" where
  "normalizeReply content = fixIncompleteJSON (extractJSONFromContent content)"

section \<open>The classification engine (models.go, lines 256 to 516)\<close>

subsection \<open>Data\<close>

text \<open>\<^verbatim>\<open>FileInfo\<close>, declared in main.go.\<close>

record FileInfo =
  Path :: gostring
  Category :: gostring

text \<open>
  A Go map is modelled as an association list with at most one entry for a key; the order
  of the list stands for the order in which a \<^verbatim>\<open>range\<close> loop visits the map, which Go
  leaves open. \<open>mapGet\<close> is the index expression \<^verbatim>\<open>m[k]\<close> on a map of slices, whose
  value for a missing key is the nil slice; an assignment \<^verbatim>\<open>m[k] = v\<close> is
  \<^const>\<open>AList.update\<close>. A nil map and an empty map are both the empty list: the source
  only takes their length and ranges over them.
\<close>

type_synonym ClassificationMap = "(gostring \<times> FileInfo list) list"
type_synonym ProcessedSet = "(gostring \<times> bool) list"

definition mapGet :: "('k \<times> 'v list) list \<Rightarrow> 'k \<Rightarrow> 'v list" where
  "mapGet m k = (case map_of m k of None \<Rightarrow> [] | Some v \<Rightarrow> v)"

text \<open>
  A call ends with a map, with an error value carrying its message, or, at line 345, with
  the run-time panic of indexing an empty \<^verbatim>\<open>Choices\<close> slice, which ends the process.
\<close>

datatype failure = Failure gostring | Panic

subsection \<open>splitFileList\<close>

text \<open>
  The loop of \<^verbatim>\<open>splitFileList\<close>, from index \<open>i\<close>. The indices are Go ints of 64
  bits; \<open>i + 150\<close> cannot wrap around for a slice that fits in memory.
\<close>

definition maxFilesPerChunk :: nat where
  "maxFilesPerChunk = 150"

function splitFrom :: "nat \<Rightarrow> 'a list \<Rightarrow> 'a list list \<Rightarrow> 'a list list" where
  "splitFrom i files chunks =
     (if i < length files then
        (let end = i + maxFilesPerChunk;
             end = (if end > length files then length files else end)
         in splitFrom (i + maxFilesPerChunk) files (chunks @ [slice files (int i) (int end)]))
      else chunks)"
  by pat_completeness auto
termination
  by (relation "measure (\<lambda>(i, files, chunks). length files - i)")
     (auto simp: maxFilesPerChunk_def)

declare splitFrom.simps [simp del]

definition splitFileList :: "'a list \<Rightarrow> 'a list list" where
  "splitFileList files = splitFrom 0 files []"

subsection \<open>mergeClassificationResults\<close>

fun mergeResult :: "ClassificationMap \<Rightarrow> ClassificationMap \<Rightarrow> ClassificationMap" where
  "mergeResult [] merged = merged"
| "mergeResult ((category, files) # rest) merged =
     mergeResult rest (AList.update category (mapGet merged category @ files) merged)"

fun mergeResults :: "ClassificationMap list \<Rightarrow> ClassificationMap \<Rightarrow> ClassificationMap" where
  "mergeResults [] merged = merged"
| "mergeResults (result # results) merged = mergeResults results (mergeResult result merged)"

definition mergeClassificationResults :: "ClassificationMap list \<Rightarrow> ClassificationMap" where
  "mergeClassificationResults results = mergeResults results []"

subsection \<open>callAPI\<close>

text \<open>
  \<^verbatim>\<open>doAPICall\<close> performs the HTTP exchange. It is a parameter of the model: the
  function that gives, for the number of an attempt (from 0), the error message or the
  response of that attempt. A response is the list of the contents of its choices.
  \<open>callAPI\<close> returns, with its result, the trace of what it did: the number of attempts
  made and the seconds slept after each failed attempt (the source computes
  \<open>2 ^ i\<close> through \<^verbatim>\<open>math.Pow\<close>, which is exact for \<open>i < 3\<close>).
\<close>

type_synonym APIResponse = "gostring list"
type_synonym transport = "nat \<Rightarrow> gostring + APIResponse"

record api_trace =
  attempts :: nat
  sleeps :: "nat list"

definition retriesExhausted :: "gostring \<Rightarrow> gostring" where
  \<comment> \<open>the message of line 515: the format string with 3 for the verb of the count\<close>
  "retriesExhausted err =
     [22312, 51, 27425, 37325, 35797, 21518, 20173, 28982, 22833, 36133, 58, 32] @ err"

function callAPIFrom ::
  "transport \<Rightarrow> nat \<Rightarrow> gostring \<Rightarrow> api_trace \<Rightarrow> (gostring + APIResponse) \<times> api_trace" where
  "callAPIFrom doAPICall i err tr =
     (if i < 3 then
        (case doAPICall i of
           Inr response \<Rightarrow> (Inr response, tr\<lparr>attempts := attempts tr + 1\<rparr>)
         | Inl err \<Rightarrow>
             if contains err (str ''JSON'') then (Inl err, tr\<lparr>attempts := attempts tr + 1\<rparr>)
             else callAPIFrom doAPICall (i + 1) err
                    (tr\<lparr>attempts := attempts tr + 1, sleeps := sleeps tr @ [2 ^ i]\<rparr>))
      else (Inl (retriesExhausted err), tr))"
  by pat_completeness auto
termination
  by (relation "measure (\<lambda>(doAPICall, i, err, tr). 3 - i)") auto

declare callAPIFrom.simps [simp del]

definition callAPI :: "transport \<Rightarrow> (gostring + APIResponse) \<times> api_trace" where
  "callAPI doAPICall = callAPIFrom doAPICall 0 [] \<lparr>attempts = 0, sleeps = []\<rparr>"

subsection \<open>processClassificationChunk\<close>

text \<open>
  The innermost loop of the resolver (lines 380 to 387): the first record of the batch
  with the path gets the category, is appended to the list of the category and marked
  processed, and the loop breaks.
\<close>

fun matchFile ::
  "gostring \<Rightarrow> gostring \<Rightarrow> FileInfo list \<Rightarrow> ClassificationMap \<times> ProcessedSet
     \<Rightarrow> ClassificationMap \<times> ProcessedSet" where
  "matchFile category path [] (classifiedFiles, processedFiles) =
     (classifiedFiles, processedFiles)"
| "matchFile category path (file # rest) (classifiedFiles, processedFiles) =
     (if Path file = path then
        (let file = file\<lparr>Category := category\<rparr>
         in (AList.update category (mapGet classifiedFiles category @ [file]) classifiedFiles,
             AList.update (Path file) True processedFiles))
      else matchFile category path rest (classifiedFiles, processedFiles))"

fun resolvePaths ::
  "gostring \<Rightarrow> gostring list \<Rightarrow> FileInfo list \<Rightarrow> ClassificationMap \<times> ProcessedSet
     \<Rightarrow> ClassificationMap \<times> ProcessedSet" where
  "resolvePaths category [] chunk st = st"
| "resolvePaths category (path # filePaths) chunk st =
     resolvePaths category filePaths chunk (matchFile category path chunk st)"

fun resolveCategories ::
  "(gostring \<times> gostring list) list \<Rightarrow> FileInfo list \<Rightarrow> ClassificationMap \<times> ProcessedSet
     \<Rightarrow> ClassificationMap \<times> ProcessedSet" where
  "resolveCategories [] chunk st = st"
| "resolveCategories ((category, filePaths) # categories) chunk (classifiedFiles, processedFiles) =
     resolveCategories categories chunk
       (resolvePaths category filePaths chunk
          (AList.update category [] classifiedFiles, processedFiles))"

text \<open>
  \<^verbatim>\<open>json.Unmarshal\<close> into a \<^verbatim>\<open>map[string][]string\<close> belongs to the Go library and
  is a parameter of the model: it gives the message of its error, or the decoded map
  in the order the resolver's loop will visit it.
\<close>

type_synonym unmarshal = "gostring \<Rightarrow> gostring + (gostring \<times> gostring list) list"

definition apiCallFailed :: "gostring \<Rightarrow> gostring" where
  \<comment> \<open>line 341\<close>
  "apiCallFailed err = [65, 80, 73, 35843, 29992, 22833, 36133, 58, 32] @ err"

definition jsonIncomplete :: gostring where
  \<comment> \<open>line 354\<close>
  "jsonIncomplete =
     [65, 80, 73, 36820, 22238, 30340, 74, 83, 79, 78, 20869, 23481, 19981, 23436, 25972,
      65292, 35831, 26816, 26597, 65, 80, 73, 21709, 24212]"

definition parseFailed :: "gostring \<Rightarrow> gostring \<Rightarrow> gostring" where
  \<comment> \<open>line 359\<close>
  "parseFailed err content =
     [35299, 26512, 20998, 31867, 32467, 26524, 22833, 36133, 58, 32] @ err
       @ [10, 74, 83, 79, 78, 20869, 23481, 58, 32] @ content"

definition emptyResult :: gostring where
  \<comment> \<open>line 364\<close>
  "emptyResult = [65, 80, 73, 36820, 22238, 30340, 20998, 31867, 32467, 26524, 20026, 31354]"

text \<open>
  Lines 339 to 365: the call, the normalizer, the validation and the decoding. The prompt
  of lines 301 to 336 only travels to the transport, whose answers are a parameter here.
\<close>

definition decodeReply :: "unmarshal \<Rightarrow> transport \<Rightarrow> failure + (gostring \<times> gostring list) list" where
  "decodeReply jsonUnmarshal doAPICall =
     (case fst (callAPI doAPICall) of
        Inl err \<Rightarrow> Inl (Failure (apiCallFailed err))
      | Inr response \<Rightarrow>
          (case response of
             [] \<Rightarrow> Inl Panic
           | choice # _ \<Rightarrow>
               let content = extractJSONFromContent choice;
                   content = fixIncompleteJSON content
               in if \<not> isValidJSON content then Inl (Failure jsonIncomplete)
                  else
                    (case jsonUnmarshal content of
                       Inl err \<Rightarrow> Inl (Failure (parseFailed err content))
                     | Inr categories \<Rightarrow>
                         if length categories = 0 then Inl (Failure emptyResult)
                         else Inr categories)))"

text \<open>
  The whole function: on success it returns the map of the batch and the processed set as
  the resolver (lines 376 to 389) left it. (The set \<^verbatim>\<open>classifiedPaths\<close> of lines 368 to
  373 is never read.)
\<close>

definition processClassificationChunk ::
  "unmarshal \<Rightarrow> transport \<Rightarrow> FileInfo list \<Rightarrow> ProcessedSet
     \<Rightarrow> failure + ClassificationMap \<times> ProcessedSet" where
  "processClassificationChunk jsonUnmarshal doAPICall chunk processedFiles =
     (case decodeReply jsonUnmarshal doAPICall of
        Inl err \<Rightarrow> Inl err
      | Inr categories \<Rightarrow> Inr (resolveCategories categories chunk ([], processedFiles)))"

subsection \<open>processChunksConcurrently\<close>

text \<open>
  One goroutine runs per batch. What the caller sees depends on the order in which the
  goroutines complete, so the model takes that order as the parameter \<open>sched\<close>, a list
  of batch indices, and runs the workers one after the other in it: a result is appended
  to \<^verbatim>\<open>allResults\<close>, an error message is sent to the channel, and after the barrier
  the first message of the channel, if there is one, is returned alone. A worker that
  panics ends the process, whatever the others do. An index that names no batch starts
  no worker. (The writes of different workers to the processed set are not synchronised
  in the source; the model takes each of them as atomic.)
\<close>

fun decimal :: "nat \<Rightarrow> gostring" where
  "decimal n = (if n < 10 then [48 + n] else decimal (n div 10) @ [48 + n mod 10])"

declare decimal.simps [simp del]

definition batchFailed :: "nat \<Rightarrow> gostring \<Rightarrow> gostring" where
  \<comment> \<open>line 412, for the batch number \<open>i + 1\<close>\<close>
  "batchFailed n err =
     [22788, 29702, 31532] @ decimal n @ [25209, 25991, 20214, 22833, 36133, 58, 32] @ err"

record dispatch =
  collected :: "ClassificationMap list"    \<comment> \<open>\<^verbatim>\<open>allResults\<close>, in the order of completion\<close>
  errChan :: "gostring list"               \<comment> \<open>the messages sent to the channel, in order\<close>
  processedSet :: ProcessedSet             \<comment> \<open>the shared \<^verbatim>\<open>processedFiles\<close>\<close>

fun runWorkers ::
  "unmarshal \<Rightarrow> (nat \<Rightarrow> transport) \<Rightarrow> FileInfo list list \<Rightarrow> nat list \<Rightarrow> dispatch
     \<Rightarrow> dispatch option" where
  "runWorkers jsonUnmarshal api chunks [] d = Some d"
| "runWorkers jsonUnmarshal api chunks (i # sched) d =
     (if i < length chunks then
        (case processClassificationChunk jsonUnmarshal (api i) (chunks ! i) (processedSet d) of
           Inl Panic \<Rightarrow> None
         | Inl (Failure err) \<Rightarrow>
             runWorkers jsonUnmarshal api chunks sched
               (d\<lparr>errChan := errChan d @ [batchFailed (i + 1) err]\<rparr>)
         | Inr (result, processedFiles) \<Rightarrow>
             runWorkers jsonUnmarshal api chunks sched
               (d\<lparr>collected := collected d @ [result], processedSet := processedFiles\<rparr>))
      else runWorkers jsonUnmarshal api chunks sched d)"

definition processChunksConcurrently ::
  "unmarshal \<Rightarrow> (nat \<Rightarrow> transport) \<Rightarrow> nat list \<Rightarrow> FileInfo list list \<Rightarrow> ProcessedSet
     \<Rightarrow> failure + ClassificationMap list \<times> ProcessedSet" where
  "processChunksConcurrently jsonUnmarshal api sched chunks processedFiles =
     (case runWorkers jsonUnmarshal api chunks sched
             \<lparr>collected = [], errChan = [], processedSet = processedFiles\<rparr> of
        None \<Rightarrow> Inl Panic
      | Some d \<Rightarrow>
          (case errChan d of
             err # _ \<Rightarrow> Inl (Failure err)
           | [] \<Rightarrow> Inr (collected d, processedSet d)))"

subsection \<open>handleUnclassifiedFiles and ClassifyFiles\<close>

definition unclassified :: gostring where
  \<comment> \<open>the reserved category name of lines 476 to 481\<close>
  "unclassified = [26410, 20998, 31867]"

fun firstWithPath :: "gostring \<Rightarrow> FileInfo list \<Rightarrow> FileInfo list \<Rightarrow> FileInfo list" where
  "firstWithPath path [] acc = acc"
| "firstWithPath path (file # rest) acc =
     (if Path file = path then acc @ [file\<lparr>Category := unclassified\<rparr>]
      else firstWithPath path rest acc)"

fun collectUnclassified :: "gostring list \<Rightarrow> FileInfo list \<Rightarrow> FileInfo list \<Rightarrow> FileInfo list" where
  "collectUnclassified [] files acc = acc"
| "collectUnclassified (path # paths) files acc =
     collectUnclassified paths files (firstWithPath path files acc)"

definition handleUnclassifiedFiles :: "FileInfo list \<Rightarrow> ProcessedSet \<Rightarrow> ClassificationMap" where
  "handleUnclassifiedFiles files processedFiles =
     (let unprocessedFiles = map fst (filter (\<lambda>(path, processed). \<not> processed) processedFiles)
      in if length unprocessedFiles > 0
         then [(unclassified, collectUnclassified unprocessedFiles files [])]
         else [])"

fun initProcessed :: "FileInfo list \<Rightarrow> ProcessedSet \<Rightarrow> ProcessedSet" where
  "initProcessed [] processedFiles = processedFiles"
| "initProcessed (file # files) processedFiles =
     initProcessed files (AList.update (Path file) False processedFiles)"

text \<open>
  \<^verbatim>\<open>ClassifyFiles\<close> of \<^verbatim>\<open>DeepseekProvider\<close>; the methods of the three other providers
  have the same body. \<open>api i\<close> is the transport as batch \<open>i\<close> meets it.
\<close>

definition ClassifyFiles ::
  "unmarshal \<Rightarrow> (nat \<Rightarrow> transport) \<Rightarrow> nat list \<Rightarrow> FileInfo list \<Rightarrow> failure + ClassificationMap" where
  "ClassifyFiles jsonUnmarshal api sched files =
     (let chunks = splitFileList files;
          processedFiles = initProcessed files []
      in case processChunksConcurrently jsonUnmarshal api sched chunks processedFiles of
           Inl err \<Rightarrow> Inl err
         | Inr (allResults, processedFiles) \<Rightarrow>
             let unclassifiedFiles = handleUnclassifiedFiles files processedFiles;
                 allResults = (if length unclassifiedFiles > 0
                               then allResults @ [unclassifiedFiles] else allResults)
             in Inr (mergeClassificationResults allResults))"

subsection \<open>Notions used in the statements\<close>


text \<open>
  What the resolver makes of the paths a reply lists under one category: for each listed
  path, in order, nothing when no record of the batch has the path, and otherwise the
  first record of the batch with the path, with the category written into it.
\<close>

definition matches :: "gostring \<Rightarrow> gostring list \<Rightarrow> FileInfo list \<Rightarrow> FileInfo list" where
  "matches category paths chunk =
     concat (map (\<lambda>path. case find (\<lambda>file. Path file = path) chunk of
                           None \<Rightarrow> []
                         | Some file \<Rightarrow> [file\<lparr>Category := category\<rparr>]) paths)"

text \<open>The map of a batch, category by category, for a decoded reply.\<close>

definition batchResult :: "(gostring \<times> gostring list) list \<Rightarrow> FileInfo list \<Rightarrow> ClassificationMap" where
  "batchResult categories chunk =
     map (\<lambda>(category, paths). (category, matches category paths chunk)) categories"

text \<open>
  The paths a reply lists that are paths of the batch, in the order of the reply and as
  often as it lists them; and the processed set with a list of paths marked.
\<close>

definition hits :: "(gostring \<times> gostring list) list \<Rightarrow> FileInfo list \<Rightarrow> gostring list" where
  "hits categories chunk = filter (\<lambda>path. path \<in> Path ` set chunk) (concat (map snd categories))"

definition markAll :: "gostring list \<Rightarrow> ProcessedSet \<Rightarrow> ProcessedSet" where
  "markAll paths processedFiles = fold (\<lambda>path. AList.update path True) paths processedFiles"


definition entriesOf :: "ClassificationMap \<Rightarrow> (gostring \<times> FileInfo) list" where
  "entriesOf m = concat (map (\<lambda>(category, files). map (Pair category) files) m)"

text \<open>
  For batch \<open>i\<close> of a call: the map its reply resolves to and the paths of the batch its
  reply lists (both empty when the batch fails); the messages the failed batches of a
  schedule send, in order; and the paths no reply of the schedule lists, which the
  completeness guard collects.
\<close>

definition resolvedBatch ::
  "unmarshal \<Rightarrow> (nat \<Rightarrow> transport) \<Rightarrow> FileInfo list list \<Rightarrow> nat \<Rightarrow> ClassificationMap" where
  "resolvedBatch U A chunks i =
     (case decodeReply U (A i) of Inr cats \<Rightarrow> batchResult cats (chunks ! i) | Inl e \<Rightarrow> [])"

definition batchHits ::
  "unmarshal \<Rightarrow> (nat \<Rightarrow> transport) \<Rightarrow> FileInfo list list \<Rightarrow> nat \<Rightarrow> gostring list" where
  "batchHits U A chunks i =
     (case decodeReply U (A i) of Inr cats \<Rightarrow> hits cats (chunks ! i) | Inl e \<Rightarrow> [])"

definition batchErrors :: "unmarshal \<Rightarrow> (nat \<Rightarrow> transport) \<Rightarrow> nat list \<Rightarrow> gostring list" where
  "batchErrors U A sched =
     concat (map (\<lambda>i. case decodeReply U (A i) of
                         Inl (Failure msg) \<Rightarrow> [batchFailed (i + 1) msg]
                       | _ \<Rightarrow> []) sched)"

definition guardPaths ::
  "unmarshal \<Rightarrow> (nat \<Rightarrow> transport) \<Rightarrow> nat list \<Rightarrow> FileInfo list \<Rightarrow> gostring list" where
  "guardPaths U A sched files =
     filter (\<lambda>p. p \<notin> set (concat (map (batchHits U A (splitFileList files)) sched)))
       (map Path files)"

text \<open>
  A Go map has one entry for a key: the decoder gives every batch a list of categories
  without a repeated name.
\<close>

definition decodesToMaps :: "unmarshal \<Rightarrow> (nat \<Rightarrow> transport) \<Rightarrow> nat \<Rightarrow> bool" where
  "decodesToMaps U A n \<longleftrightarrow>
     (\<forall>i<n. \<forall>cats. decodeReply U (A i) = Inr cats \<longrightarrow> distinct (map fst cats))"


definition oneCategoryPerPath ::
  "unmarshal \<Rightarrow> (nat \<Rightarrow> transport) \<Rightarrow> FileInfo list list \<Rightarrow> bool" where
  "oneCategoryPerPath U A chunks \<longleftrightarrow>
     (\<forall>i<length chunks. \<forall>cats. decodeReply U (A i) = Inr cats \<longrightarrow>
        (\<forall>c ps c' ps'. (c, ps) \<in> set cats \<and> (c', ps') \<in> set cats \<and> c \<noteq> c' \<longrightarrow>
           set ps \<inter> set ps' \<inter> Path ` set (chunks ! i) = {}))"

subsection \<open>Worked inputs\<close>

text \<open>
  File records as the enumeration of main.go creates them, with no category; a decoder
  that knows one document, for which it gives the map \<^verbatim>\<open>json.Unmarshal\<close> decodes it to;
  a transport that answers every attempt with one choice of the given content; and the
  transports of a call whose first batch is answered and whose second batch meets a
  failure at once. Further, a transport that times out twice and then answers; the error
  of \<^verbatim>\<open>doAPICall\<close> (line 559) for a body that is a JSON string and not an object;
  and the transports of a call whose first batch meets a failure at once and whose second
  batch is answered with no choice.
\<close>

definition aFile :: FileInfo where
  "aFile = \<lparr>Path = str ''a.txt'', Category = []\<rparr>"

definition newFile :: "string \<Rightarrow> FileInfo" where
  "newFile p = \<lparr>Path = str p, Category = []\<rparr>"

definition unmarshalOf :: "gostring \<Rightarrow> (gostring \<times> gostring list) list \<Rightarrow> unmarshal" where
  "unmarshalOf content categories s =
     (if s = content then Inr categories else Inl (str ''unexpected end of JSON input''))"

definition answer :: "gostring \<Rightarrow> transport" where
  "answer content attempt = Inr [content]"

definition secondBatchFails :: "nat \<Rightarrow> transport" where
  "secondBatchFails i =
     (if i = 0 then answer (str ''{\"d\":[\"a.txt\"]}'') else (\<lambda>attempt. Inl (str ''bad JSON'')))"



definition errorThenNoChoices :: "nat \<Rightarrow> transport" where
  "errorThenNoChoices i =
     (if i = 0 then (\<lambda>attempt. Inl (str ''bad JSON'')) else (\<lambda>attempt. Inr []))"

section \<open>Properties of the normalizer\<close>

text \<open>
  The equations that evaluate the model on a concrete input. A \<open>let\<close> is unfolded only
  once its bound term is a value, so that no term is evaluated twice.
\<close>

lemmas eval_defs =
  str_def isSpace_def trimSpace_def hasPrefix_def hasSuffix_def trimPrefix_def trimSuffix_def
  lastIndexRune_def slice_def isValidJSON_def fixIncompleteJSON_def fenceJSON_def fence_def
  stripCodeFence_def extractJSONFromContent_def LBRACE_def RBRACE_def LBRACKET_def RBRACKET_def
  QUOTE_def BACKSLASH_def BACKTICK_def splitFileList_def splitFrom.simps maxFilesPerChunk_def
  callAPIFrom.simps callAPI_def mergeClassificationResults_def mapGet_def decodeReply_def
  processClassificationChunk_def processChunksConcurrently_def handleUnclassifiedFiles_def
  ClassifyFiles_def unclassified_def unmarshalOf_def newFile_def answer_def
  Let_def[of "[]"] Let_def[of "_ # _"] Let_def[of "(_, _)"] Let_def[of "numeral _"]
  Let_def[of "- numeral _"] Let_def[of "0"] Let_def[of "1"] Let_def[of "- 1"]
  Let_def[of "Inl _"] Let_def[of "Inr _"] Let_def[of "\<lparr>Path = _, Category = _\<rparr>"]
  Let_def[of "True"] Let_def[of "False"]

subsection \<open>Strings\<close>

lemma hasPrefix_single: "hasPrefix s [c] \<longleftrightarrow> s \<noteq> [] \<and> hd s = c"
  by (cases s) (auto simp: hasPrefix_def)

lemma hasSuffix_single: "hasSuffix s [c] \<longleftrightarrow> s \<noteq> [] \<and> last s = c"
proof (cases s rule: rev_cases)
  case Nil
  then show ?thesis by (simp add: hasSuffix_def)
next
  case (snoc ys y)
  then show ?thesis by (auto simp: hasSuffix_def)
qed

lemma indexRune_absent: "indexRune s c = -1 \<longleftrightarrow> c \<notin> set s"
proof (induction s)
  case Nil
  then show ?case by simp
next
  case (Cons x xs)
  have "indexRune ys c \<ge> -1" for ys
    by (induction ys) (auto simp: Let_def)
  from this[of xs] Cons show ?case by (auto simp: Let_def)
qed

lemma indexRune_first: "c \<notin> set pre \<Longrightarrow> indexRune (pre @ c # rest) c = int (length pre)"
  by (induction pre) (auto simp: Let_def)

lemma lastIndexRune_absent: "lastIndexRune s c = -1 \<longleftrightarrow> c \<notin> set s"
proof -
  have "indexRune xs c \<le> int (length xs) - 1" for xs
    by (induction xs) (auto simp: Let_def)
  from this[of "rev s"] show ?thesis
    using indexRune_absent[of "rev s" c]
    by (auto simp: lastIndexRune_def Let_def)
qed

lemma lastIndexRune_last:
  "c \<notin> set post \<Longrightarrow> lastIndexRune (pre @ c # post) c = int (length pre)"
  using indexRune_first[of c "rev post" "rev pre"]
  by (simp add: lastIndexRune_def Let_def)

lemma slice_middle:
  "slice (pre @ j @ post) (int (length pre)) (int (length pre) + int (length j)) = j"
  by (simp add: slice_def)

subsection \<open>The counting loops\<close>

lemma countBrackets_count:
  "countBrackets s (a, b) = (a + count_list s LBRACKET, b + count_list s RBRACKET)"
  by (induction s arbitrary: a b) (auto simp: LBRACKET_def RBRACKET_def)

lemma countBraces_count:
  "countBraces s (a, b) = (a + count_list s LBRACE, b + count_list s RBRACE)"
  by (induction s arbitrary: a b) (auto simp: LBRACE_def RBRACE_def)

lemma countQuotes_count: "countQuotes s q = q + count_list s QUOTE"
  by (induction s arbitrary: q) auto

lemma if_gt_replicate:
  "(if (a::nat) > b then x @ replicate (a - b) r else x) = x @ replicate (a - b) r"
  by simp

lemma if_flip: "(if \<not> P then a else b) = (if P then b else a)"
  by simp

lemma fixIncompleteJSON_counts:
  "fixIncompleteJSON s =
     (let c = trimSpace s in
      if c = [] then []
      else
        let c1 = (if hd c = LBRACE then c else LBRACE # c);
            c2 = (if last c1 = RBRACE then c1 else c1 @ [RBRACE]);
            c3 = c2 @ replicate (count_list c2 LBRACKET - count_list c2 RBRACKET) RBRACKET;
            c4 = c3 @ replicate (count_list c3 LBRACE - count_list c3 RBRACE) RBRACE
        in if even (count_list c4 QUOTE) then c4 else c4 @ [QUOTE])"
proof (cases "trimSpace s = []")
  case True
  then show ?thesis by (simp add: fixIncompleteJSON_def)
next
  case False
  define c where "c = trimSpace s"
  define c1 where "c1 = (if hd c = LBRACE then c else LBRACE # c)"
  define c2 where "c2 = (if last c1 = RBRACE then c1 else c1 @ [RBRACE])"
  have n: "c \<noteq> []" using False by (simp add: c_def)
  have e1: "(if \<not> hasPrefix c [LBRACE] then [LBRACE] @ c else c) = c1"
    using n by (simp add: c1_def hasPrefix_single)
  have n1: "c1 \<noteq> []" using n by (simp add: c1_def)
  have e2: "(if \<not> hasSuffix c1 [RBRACE] then c1 @ [RBRACE] else c1) = c2"
    using n1 by (simp add: c2_def hasSuffix_single)
  have "fixIncompleteJSON s =
     (let c3 = c2 @ replicate (count_list c2 LBRACKET - count_list c2 RBRACKET) RBRACKET;
          c4 = c3 @ replicate (count_list c3 LBRACE - count_list c3 RBRACE) RBRACE
      in if even (count_list c4 QUOTE) then c4 else c4 @ [QUOTE])"
    unfolding fixIncompleteJSON_def
    apply (subst Let_def)
    apply (fold c_def)
    apply (simp only: n if_False)
    apply (subst Let_def)
    apply (simp only: e1)
    apply (subst Let_def)
    apply (simp only: e2)
    apply (simp only: countBrackets_count countBraces_count countQuotes_count Let_def prod.case
        if_gt_replicate add_0 even_iff_mod_2_eq_zero)
    apply (simp only: if_flip)
    done
  then show ?thesis
    unfolding c2_def c1_def c_def using False by (simp only: Let_def if_False)
qed

text \<open>
  Claim C3. The claim describes a repair that is aware of strings, and so do the comments
  of \<open>fixIncompleteJSON\<close> (lines 157 and 168: close the array, the object, that is
  not closed) and the scan of \<open>isValidJSON\<close> beside it. The code departs from it:
  its three loops have no string mode and no escape flag, and count every bracket, brace
  and quote of the text. On the reply that files the one path \<^verbatim>\<open>a[.txt\<close> under the
  category d, a valid object on which the repair that is aware of strings appends
  nothing, \<open>fixIncompleteJSON\<close> appends a closing bracket for the bracket inside the
  string; the result is not valid JSON any more, and as the batch runs the repair on
  every extracted reply (line 349), the batch fails, for every decoder, with the error
  of an incomplete JSON content.
\<close>

theorem fixIncompleteJSON_rejects_valid_reply:
  "isValidJSON (str ''{\"d\":[\"a[.txt\"]}'') \<and>
   specBalanceRepair (str ''{\"d\":[\"a[.txt\"]}'') = str ''{\"d\":[\"a[.txt\"]}'' \<and>
   fixIncompleteJSON (str ''{\"d\":[\"a[.txt\"]}'') = str ''{\"d\":[\"a[.txt\"]}]'' \<and>
   \<not> isValidJSON (str ''{\"d\":[\"a[.txt\"]}]'') \<and>
   decodeReply U (answer (str ''{\"d\":[\"a[.txt\"]}'')) = Inl (Failure jsonIncomplete)"
  by (simp add: eval_defs specBalanceRepair_def)

text \<open>
  The batch of the one file \<^verbatim>\<open>a[.txt\<close> with that reply, and with the decoder that
  decodes the reply to its one category: the batch fails.
\<close>

theorem fixIncompleteJSON_rejects_valid_reply_witness:
  "processClassificationChunk
       (unmarshalOf (str ''{\"d\":[\"a[.txt\"]}'') [(str ''d'', [str ''a[.txt''])])
       (answer (str ''{\"d\":[\"a[.txt\"]}'')) [newFile ''a[.txt''] [(str ''a[.txt'', False)]
     = Inl (Failure jsonIncomplete)"
proof -
  from fixIncompleteJSON_rejects_valid_reply
    [of "unmarshalOf (str ''{\"d\":[\"a[.txt\"]}'') [(str ''d'', [str ''a[.txt''])]"]
  have "decodeReply (unmarshalOf (str ''{\"d\":[\"a[.txt\"]}'') [(str ''d'', [str ''a[.txt''])])
          (answer (str ''{\"d\":[\"a[.txt\"]}'')) = Inl (Failure jsonIncomplete)"
    by blast
  then show ?thesis by (simp only: processClassificationChunk_def sum.case)
qed

text \<open>
  Claim C10, as the code has it. \<open>fixIncompleteJSON\<close> returns the empty string for
  the empty string and for every string of white space only; for every other string its
  output begins with an opening brace.
\<close>

theorem fixIncompleteJSON_edge_cases:
  "fixIncompleteJSON [] = [] \<and>
   (trimSpace s = [] \<longrightarrow> fixIncompleteJSON s = []) \<and>
   (trimSpace s \<noteq> [] \<longrightarrow> hasPrefix (fixIncompleteJSON s) [LBRACE])"
proof -
  have r1: "hasPrefix x [LBRACE] \<Longrightarrow> hasPrefix (x @ y) [LBRACE]" for x y
    by (cases x) (auto simp: hasPrefix_def)
  have r2: "c \<noteq> [] \<Longrightarrow> hasPrefix (if hd c = LBRACE then c else LBRACE # c) [LBRACE]" for c
    by (simp add: hasPrefix_single)
  have r3: "hasPrefix x [LBRACE] \<Longrightarrow> hasPrefix (if b then x else x @ y) [LBRACE]" for x y b
    by (simp add: r1)
  have "hasPrefix (fixIncompleteJSON s) [LBRACE]" if "trimSpace s \<noteq> []"
    unfolding fixIncompleteJSON_counts Let_def using that
    by (simp only: if_False) (intro r3 r1 r2)
  moreover have "fixIncompleteJSON [] = []"
    by (simp add: fixIncompleteJSON_def trimSpace_def)
  moreover have "fixIncompleteJSON s = []" if "trimSpace s = []"
    using that by (simp add: fixIncompleteJSON_def)
  ultimately show ?thesis by blast
qed

text \<open>The edge cases on a blank string and on the one-letter string a.\<close>

theorem fixIncompleteJSON_edge_cases_witness:
  "trimSpace [32, 9] = [] \<and> fixIncompleteJSON [32, 9] = [] \<and>
   trimSpace (str ''a'') \<noteq> [] \<and> hasPrefix (fixIncompleteJSON (str ''a'')) [LBRACE]"
proof -
  have 1: "trimSpace [32, 9] = []" by (simp add: eval_defs)
  have 2: "trimSpace (str ''a'') \<noteq> []" by (simp add: eval_defs)
  from fixIncompleteJSON_edge_cases[of "[32, 9]"] 1
  have 3: "fixIncompleteJSON [32, 9] = []" by blast
  from fixIncompleteJSON_edge_cases[of "str ''a''"] 2
  have 4: "hasPrefix (fixIncompleteJSON (str ''a'')) [LBRACE]" by blast
  from 1 2 3 4 show ?thesis by blast
qed

text \<open>
  Claim C10 as stated fails on a string that consists of one space: it is not empty, and
  the output, the empty string, does not begin with an opening brace.
\<close>

theorem fixIncompleteJSON_blank_input:
  "[32] \<noteq> ([] :: gostring) \<and> fixIncompleteJSON [32] = [] \<and>
   \<not> hasPrefix (fixIncompleteJSON [32]) [LBRACE]"
  by (simp add: eval_defs)

subsection \<open>Extraction\<close>

lemma extract_no_object:
  assumes "\<not> (\<exists>pre mid post. stripCodeFence content = pre @ LBRACE # mid @ RBRACE # post)"
  shows "extractJSONFromContent content = stripCodeFence content"
proof -
  define t where "t = stripCodeFence content"
  have "indexRune t LBRACE = -1 \<or> lastIndexRune t RBRACE = -1
          \<or> lastIndexRune t RBRACE \<le> indexRune t LBRACE"
  proof (rule ccontr)
    assume a: "\<not> ?thesis"
    then have "LBRACE \<in> set t" "RBRACE \<in> set t"
      by (auto simp: indexRune_absent lastIndexRune_absent)
    then obtain pre r q post where
      1: "t = pre @ LBRACE # r" "LBRACE \<notin> set pre" and
      2: "t = q @ RBRACE # post" "RBRACE \<notin> set post"
      by (meson split_list_first split_list_last)
    have i: "indexRune t LBRACE = int (length pre)"
      using 1 by (simp add: indexRune_first)
    have l: "lastIndexRune t RBRACE = int (length q)"
      using 2 by (simp add: lastIndexRune_last)
    from a i l have lt: "length pre < length q" by simp
    from 1(1) 2(1) have "pre @ LBRACE # r = q @ RBRACE # post" by simp
    then obtain us where "q = pre @ us \<and> us @ RBRACE # post = LBRACE # r"
      using lt by (auto simp: append_eq_append_conv2)
    then obtain mid where "q = pre @ LBRACE # mid"
      using lt by (cases us) auto
    with 2(1) have "t = pre @ LBRACE # mid @ RBRACE # post" by simp
    with assms show False by (auto simp: t_def)
  qed
  then show ?thesis
    by (simp add: extractJSONFromContent_def Let_def t_def)
qed

lemma extract_object:
  assumes t: "stripCodeFence content = pre @ LBRACE # mid @ RBRACE # post"
    and pre: "LBRACE \<notin> set pre" and post: "RBRACE \<notin> set post"
  shows "extractJSONFromContent content =
           (if isValidJSON (LBRACE # mid @ [RBRACE]) then LBRACE # mid @ [RBRACE]
            else fixIncompleteJSON (LBRACE # mid @ [RBRACE]))"
proof -
  have i: "indexRune (stripCodeFence content) LBRACE = int (length pre)"
    using pre by (simp add: t indexRune_first)
  have "stripCodeFence content = (pre @ LBRACE # mid) @ RBRACE # post"
    by (simp add: t)
  then have l: "lastIndexRune (stripCodeFence content) RBRACE = int (length (pre @ LBRACE # mid))"
    using post lastIndexRune_last by metis
  have "slice (pre @ (LBRACE # mid @ [RBRACE]) @ post) (int (length pre))
          (int (length pre) + int (length (LBRACE # mid @ [RBRACE]))) = LBRACE # mid @ [RBRACE]"
    by (rule slice_middle)
  then have s: "slice (stripCodeFence content) (int (length pre))
                  (int (length (pre @ LBRACE # mid)) + 1) = LBRACE # mid @ [RBRACE]"
    by (simp add: t algebra_simps)
  show ?thesis
    unfolding extractJSONFromContent_def Let_def i l s by simp
qed

lemma object_bounds:
  assumes "t = pre @ c # mid @ d # post"
  shows "\<exists>pre' mid' post'. t = pre' @ c # mid' @ d # post' \<and> c \<notin> set pre' \<and> d \<notin> set post'"
proof -
  have "c \<in> set (pre @ [c])" by simp
  then obtain pre' x where 1: "pre @ [c] = pre' @ c # x" "c \<notin> set pre'"
    by (meson split_list_first)
  have "d \<in> set (d # post)" by simp
  then obtain y post' where 2: "d # post = y @ d # post'" "d \<notin> set post'"
    by (meson split_list_last)
  have "t = (pre @ [c]) @ mid @ (d # post)" using assms by simp
  also have "\<dots> = pre' @ c # (x @ mid @ y) @ d # post'"
    unfolding 1(1) 2(1) by simp
  finally show ?thesis using 1(2) 2(2) by blast
qed

text \<open>
  Claim C5. Let \<open>t\<close> be the reply after trimming and the removal of the code fences.
  When no opening brace of \<open>t\<close> is followed by a closing brace (so \<open>t\<close> has no opening
  brace, or no closing brace, or its last closing brace does not come after its first
  opening brace), \<open>extractJSONFromContent\<close> returns \<open>t\<close> unchanged. Otherwise \<open>t\<close>
  splits at its first opening brace and its last closing brace, and the function returns
  the part from the one to the other, both included, or, when that part fails
  \<open>isValidJSON\<close>, what \<open>fixIncompleteJSON\<close> makes of it.
\<close>

theorem extractJSONFromContent_first_to_last_brace:
  "((\<nexists>pre mid post. stripCodeFence content = pre @ LBRACE # mid @ RBRACE # post) \<longrightarrow>
      extractJSONFromContent content = stripCodeFence content) \<and>
   ((\<exists>pre mid post. stripCodeFence content = pre @ LBRACE # mid @ RBRACE # post) \<longrightarrow>
      (\<exists>pre mid post. stripCodeFence content = pre @ LBRACE # mid @ RBRACE # post \<and>
         LBRACE \<notin> set pre \<and> RBRACE \<notin> set post)) \<and>
   (\<forall>pre mid post.
      stripCodeFence content = pre @ LBRACE # mid @ RBRACE # post \<and>
      LBRACE \<notin> set pre \<and> RBRACE \<notin> set post \<longrightarrow>
      extractJSONFromContent content =
        (if isValidJSON (LBRACE # mid @ [RBRACE]) then LBRACE # mid @ [RBRACE]
         else fixIncompleteJSON (LBRACE # mid @ [RBRACE])))"
proof (intro conjI impI allI)
  assume "\<nexists>pre mid post. stripCodeFence content = pre @ LBRACE # mid @ RBRACE # post"
  then show "extractJSONFromContent content = stripCodeFence content"
    by (rule extract_no_object)
next
  assume "\<exists>pre mid post. stripCodeFence content = pre @ LBRACE # mid @ RBRACE # post"
  then obtain pre mid post where "stripCodeFence content = pre @ LBRACE # mid @ RBRACE # post"
    by blast
  then show "\<exists>pre mid post. stripCodeFence content = pre @ LBRACE # mid @ RBRACE # post \<and>
         LBRACE \<notin> set pre \<and> RBRACE \<notin> set post"
    by (rule object_bounds)
next
  fix pre mid post
  assume "stripCodeFence content = pre @ LBRACE # mid @ RBRACE # post \<and>
      LBRACE \<notin> set pre \<and> RBRACE \<notin> set post"
  then show "extractJSONFromContent content =
        (if isValidJSON (LBRACE # mid @ [RBRACE]) then LBRACE # mid @ [RBRACE]
         else fixIncompleteJSON (LBRACE # mid @ [RBRACE]))"
    using extract_object[of content pre mid post] by blast
qed

text \<open>The extraction on a text without an object, and on a fenced reply with a letter before and after the object.\<close>

theorem extractJSONFromContent_first_to_last_brace_witness:
  "extractJSONFromContent (str ''no object'') = stripCodeFence (str ''no object'') \<and>
   stripCodeFence (fenceJSON @ [10] @ str ''x{\"a\":[\"b\"]}y'' @ [10] @ fence)
     = str ''x'' @ LBRACE # str ''\"a\":[\"b\"]'' @ RBRACE # str ''y'' \<and>
   extractJSONFromContent (fenceJSON @ [10] @ str ''x{\"a\":[\"b\"]}y'' @ [10] @ fence)
     = str ''{\"a\":[\"b\"]}''"
proof -
  have "LBRACE \<notin> set (stripCodeFence (str ''no object''))" by (simp add: eval_defs)
  then have 1: "\<nexists>pre mid post. stripCodeFence (str ''no object'') = pre @ LBRACE # mid @ RBRACE # post"
    by auto
  have 2: "stripCodeFence (fenceJSON @ [10] @ str ''x{\"a\":[\"b\"]}y'' @ [10] @ fence)
     = str ''x'' @ LBRACE # str ''\"a\":[\"b\"]'' @ RBRACE # str ''y''"
    by (simp add: eval_defs)
  have 3: "LBRACE \<notin> set (str ''x'')" "RBRACE \<notin> set (str ''y'')" by (simp_all add: eval_defs)
  have 4: "isValidJSON (LBRACE # str ''\"a\":[\"b\"]'' @ [RBRACE])" by (simp add: eval_defs)
  have 5: "LBRACE # str ''\"a\":[\"b\"]'' @ [RBRACE] = str ''{\"a\":[\"b\"]}''" by (simp add: eval_defs)
  from extractJSONFromContent_first_to_last_brace[of "str ''no object''"] 1
  have a: "extractJSONFromContent (str ''no object'') = stripCodeFence (str ''no object'')"
    by blast
  from extractJSONFromContent_first_to_last_brace[of "fenceJSON @ [10] @ str ''x{\"a\":[\"b\"]}y'' @ [10] @ fence"]
    2 3
  have "extractJSONFromContent (fenceJSON @ [10] @ str ''x{\"a\":[\"b\"]}y'' @ [10] @ fence) =
        (if isValidJSON (LBRACE # str ''\"a\":[\"b\"]'' @ [RBRACE]) then LBRACE # str ''\"a\":[\"b\"]'' @ [RBRACE]
         else fixIncompleteJSON (LBRACE # str ''\"a\":[\"b\"]'' @ [RBRACE]))"
    by blast
  with 4 5 have b: "extractJSONFromContent (fenceJSON @ [10] @ str ''x{\"a\":[\"b\"]}y'' @ [10] @ fence)
     = str ''{\"a\":[\"b\"]}''" by simp
  from a 2 b show ?thesis by blast
qed

subsection \<open>Repeating the step\<close>

lemma trimSpace_fixed:
  assumes "x \<noteq> []" "\<not> isSpace (hd x)" "\<not> isSpace (last x)"
  shows "trimSpace x = x"
proof -
  have 1: "dropWhile isSpace x = x" using assms(1,2) by (cases x) auto
  have "rev x \<noteq> []" "\<not> isSpace (hd (rev x))" using assms(1,3) by (simp_all add: hd_rev)
  then have "dropWhile isSpace (rev x) = rev x" by (cases "rev x") auto
  with 1 show ?thesis by (simp add: trimSpace_def)
qed

lemma count_list_replicate: "count_list (replicate n x) y = (if x = y then n else 0)"
  by (induction n) auto

lemma count_dropWhile_space:
  "\<not> isSpace c \<Longrightarrow> count_list (dropWhile isSpace s) c = count_list s c"
  by (induction s) auto

lemma count_trimSpace: "\<not> isSpace c \<Longrightarrow> count_list (trimSpace s) c = count_list s c"
  by (simp add: trimSpace_def count_dropWhile_space)

lemma not_space: "\<not> isSpace LBRACE" "\<not> isSpace RBRACE" "\<not> isSpace RBRACKET" "\<not> isSpace QUOTE"
  by (simp_all add: isSpace_def LBRACE_def RBRACE_def RBRACKET_def QUOTE_def)

lemma not_tick: "LBRACE \<noteq> BACKTICK" "RBRACE \<noteq> BACKTICK" "RBRACKET \<noteq> BACKTICK"
  "QUOTE \<noteq> BACKTICK"
  by (simp_all add: LBRACE_def RBRACE_def RBRACKET_def QUOTE_def BACKTICK_def)

lemma hasPrefix_hd: "hasPrefix x (a # p) \<Longrightarrow> x \<noteq> [] \<and> hd x = a"
  by (cases x) (auto simp: hasPrefix_def)

lemma hasSuffix_last: "hasSuffix x (p @ [a]) \<Longrightarrow> x \<noteq> [] \<and> last x = a"
proof -
  assume h: "hasSuffix x (p @ [a])"
  then have "drop (length x - length (p @ [a])) x = p @ [a]" by (simp add: hasSuffix_def)
  then have "x = take (length x - length (p @ [a])) x @ p @ [a]"
    by (metis append_take_drop_id)
  then have "x = (take (length x - length (p @ [a])) x @ p) @ [a]" by simp
  then show ?thesis by (metis last_snoc snoc_eq_iff_butlast)
qed

lemma stripCodeFence_fixed:
  assumes "trimSpace x = x" "x \<noteq> []" "hd x = LBRACE" "last x \<noteq> BACKTICK"
  shows "stripCodeFence x = x"
proof -
  have 1: "\<not> hasPrefix x fenceJSON"
    using hasPrefix_hd[of x BACKTICK "[BACKTICK, BACKTICK] @ str ''json''"] assms(3)
    by (auto simp: fenceJSON_def LBRACE_def BACKTICK_def)
  have 2: "\<not> hasPrefix x fence"
    using hasPrefix_hd[of x BACKTICK "[BACKTICK, BACKTICK]"] assms(3)
    by (auto simp: fence_def LBRACE_def BACKTICK_def)
  have 3: "\<not> hasSuffix x fence"
    using hasSuffix_last[of x "[BACKTICK, BACKTICK]" BACKTICK] assms(4)
    by (auto simp: fence_def)
  show ?thesis by (simp add: stripCodeFence_def assms(1) 1 2 3)
qed

text \<open>The repair of a trimmed text that starts with an opening and ends with a closing brace.\<close>

lemma fix_braced:
  assumes "x \<noteq> []" "hd x = LBRACE" "last x = RBRACE"
  shows "fixIncompleteJSON x =
           x @ replicate (count_list x LBRACKET - count_list x RBRACKET) RBRACKET
             @ replicate (count_list x LBRACE - count_list x RBRACE) RBRACE
             @ (if even (count_list x QUOTE) then [] else [QUOTE])"
proof -
  have t: "trimSpace x = x" using assms by (intro trimSpace_fixed) (simp_all add: not_space)
  have ne: "LBRACE \<noteq> RBRACKET" "RBRACE \<noteq> RBRACKET" "QUOTE \<noteq> RBRACKET" "QUOTE \<noteq> RBRACE"
    "RBRACKET \<noteq> LBRACE" "RBRACKET \<noteq> RBRACE" "RBRACKET \<noteq> QUOTE" "RBRACE \<noteq> QUOTE"
    by (simp_all add: LBRACE_def RBRACE_def RBRACKET_def QUOTE_def)
  show ?thesis
    unfolding fixIncompleteJSON_counts t Let_def
    using assms ne by (simp add: count_list_replicate)
qed


lemma valid_shape:
  assumes "isValidJSON s"
  shows "\<exists>mid. trimSpace s = LBRACE # mid @ [RBRACE]" and "isValidJSON (trimSpace s)"
proof -
  define t where "t = trimSpace s"
  from assms have p: "hasPrefix t [LBRACE]" "hasSuffix t [RBRACE]"
    by (auto simp: isValidJSON_def Let_def t_def split: if_splits)
  then have h: "t \<noteq> []" "hd t = LBRACE" "last t = RBRACE"
    by (simp_all add: hasPrefix_single hasSuffix_single)
  then obtain r where r: "t = LBRACE # r" by (cases t) auto
  have "r \<noteq> []" using h(3) r by (auto simp: LBRACE_def RBRACE_def)
  then have "r = butlast r @ [RBRACE]" using h(3) r by (metis append_butlast_last_id last_ConsR)
  with r have "t = LBRACE # butlast r @ [RBRACE]" by simp
  then show "\<exists>mid. trimSpace s = LBRACE # mid @ [RBRACE]" unfolding t_def by blast
  have "trimSpace t = t" using h by (intro trimSpace_fixed) (simp_all add: not_space)
  with assms show "isValidJSON (trimSpace s)"
    by (simp add: isValidJSON_def t_def[symmetric])
qed

lemma extract_braced:
  assumes x: "x = LBRACE # mid @ RBRACE # post" and post: "RBRACE \<notin> set post"
    and l: "\<not> isSpace (last x)" "last x \<noteq> BACKTICK"
  shows "extractJSONFromContent x =
           (if isValidJSON (LBRACE # mid @ [RBRACE]) then LBRACE # mid @ [RBRACE]
            else fixIncompleteJSON (LBRACE # mid @ [RBRACE]))"
proof -
  have "trimSpace x = x" using x l(1) by (intro trimSpace_fixed) (simp_all add: not_space)
  then have "stripCodeFence x = x" using x l(2) by (intro stripCodeFence_fixed) simp_all
  then have "stripCodeFence x = [] @ LBRACE # mid @ RBRACE # post" using x by simp
  from extract_object[OF this _ post] show ?thesis by simp
qed

lemma last_repaired:
  "last (x @ [RBRACE] @ replicate a RBRACKET @ replicate b RBRACE @ (if e then [] else [QUOTE]))
     \<in> {RBRACE, RBRACKET, QUOTE}"
  by (cases a; cases b; cases e) (auto simp: last_append)

lemma normalizeReply_valid:
  assumes "isValidJSON s"
  shows "normalizeReply s = fixIncompleteJSON (trimSpace s)"
proof -
  from valid_shape[OF assms] obtain mid where t: "trimSpace s = LBRACE # mid @ [RBRACE]"
    and v: "isValidJSON (trimSpace s)" by blast
  have "stripCodeFence (trimSpace s) = trimSpace s"
    unfolding t
    by (intro stripCodeFence_fixed trimSpace_fixed)
       (simp_all add: not_space not_tick)
  moreover have "stripCodeFence (trimSpace s) = stripCodeFence s"
  proof -
    have "trimSpace (trimSpace s) = trimSpace s"
      unfolding t by (intro trimSpace_fixed) (simp_all add: not_space)
    then show ?thesis by (simp add: stripCodeFence_def)
  qed
  ultimately have "stripCodeFence s = [] @ LBRACE # mid @ RBRACE # []" using t by simp
  from extract_object[OF this] v t have "extractJSONFromContent s = trimSpace s" by simp
  then show ?thesis by (simp add: normalizeReply_def)
qed


lemma ne_runes: "LBRACE \<noteq> RBRACKET" "RBRACE \<noteq> RBRACKET" "QUOTE \<noteq> RBRACKET" "QUOTE \<noteq> RBRACE"
  "RBRACKET \<noteq> LBRACE" "RBRACKET \<noteq> RBRACE" "RBRACKET \<noteq> QUOTE" "RBRACE \<noteq> QUOTE"
  "LBRACE \<noteq> RBRACE" "RBRACE \<noteq> LBRACE" "LBRACKET \<noteq> RBRACKET" "RBRACKET \<noteq> LBRACKET"
  "LBRACKET \<noteq> RBRACE" "RBRACE \<noteq> LBRACKET" "QUOTE \<noteq> LBRACE" "LBRACE \<noteq> QUOTE"
  by (simp_all add: LBRACE_def RBRACE_def RBRACKET_def LBRACKET_def QUOTE_def)

lemma scanJSON_append:
  "scanJSON (x @ y) st = (case scanJSON x st of None \<Rightarrow> None | Some st' \<Rightarrow> scanJSON y st')"
  by (induction x arbitrary: st) (auto split: option.splits)

lemma scanChar_escaped:
  "scanChar c st = Some (stack, inString, escaped) \<Longrightarrow> c \<noteq> BACKSLASH \<Longrightarrow> \<not> escaped"
  by (cases st) (auto split: if_splits)

lemma scanJSON_last:
  assumes "scanJSON (x @ [c]) st = Some (stack, inString, escaped)" "c \<noteq> BACKSLASH"
  shows "\<not> escaped"
proof -
  from assms(1) obtain st' where "scanChar c st' = Some (stack, inString, escaped)"
    by (auto simp: scanJSON_append split: option.splits)
  then show ?thesis using assms(2) by (rule scanChar_escaped)
qed

lemma scanJSON_closing:
  "c = RBRACE \<or> c = RBRACKET \<Longrightarrow> scanJSON (c # rest) ([], False, False) = None"
  by (auto simp: ne_runes BACKSLASH_def QUOTE_def LBRACE_def LBRACKET_def RBRACE_def RBRACKET_def)

lemma valid_then_closing:
  assumes "isValidJSON (x @ [RBRACE])" "hd (x @ [RBRACE]) = LBRACE"
    and "c = RBRACE \<or> c = RBRACKET" and "\<not> isSpace (last (c # rest))"
  shows "\<not> isValidJSON (x @ [RBRACE] @ c # rest)"
proof -
  have xn: "x \<noteq> []" "hd x = LBRACE"
    using assms(2) by (cases x; simp add: ne_runes)+
  have t2: "trimSpace (x @ [RBRACE] @ c # rest) = x @ [RBRACE] @ c # rest"
    using xn assms(4) by (intro trimSpace_fixed) (simp_all add: not_space)
  have t: "trimSpace (x @ [RBRACE]) = x @ [RBRACE]"
    using xn by (intro trimSpace_fixed) (simp_all add: not_space)
  from assms(1) obtain stack inString escaped where
    sc: "scanJSON (x @ [RBRACE]) ([], False, False) = Some (stack, inString, escaped)"
      "length stack = 0" "\<not> inString"
    by (auto simp: isValidJSON_def t Let_def split: if_splits option.splits)
  have "\<not> escaped" using sc(1) by (rule scanJSON_last) (simp add: RBRACE_def BACKSLASH_def)
  with sc have "scanJSON (x @ [RBRACE]) ([], False, False) = Some ([], False, False)" by simp
  then have "scanJSON ((x @ [RBRACE]) @ c # rest) ([], False, False) = None"
    unfolding scanJSON_append using scanJSON_closing[OF assms(3)] by simp
  then show ?thesis unfolding isValidJSON_def Let_def t2 by simp
qed

lemma fix_grows:
  assumes "x \<noteq> []" "hd x = LBRACE" "last x \<noteq> RBRACE" "\<not> isSpace (last x)"
  shows "length x < length (fixIncompleteJSON x)"
proof -
  have t: "trimSpace x = x" using assms by (intro trimSpace_fixed) (simp_all add: not_space)
  have r1: "length x < length y \<Longrightarrow> length x < length (y @ z)" for y z :: gostring
    by simp
  have r3: "length x < length y \<Longrightarrow> length x < length (if b then y else y @ z)"
    for y z :: gostring and b
    by simp
  have base: "length x < length (x @ [RBRACE])" by simp
  show ?thesis
    unfolding fixIncompleteJSON_counts Let_def t using assms(1,2,3)
    by (simp only: if_False if_True simp_thms) (intro r3 r1 base)
qed

text \<open>
  How far repeating the step goes wrong. For a string that \<open>isValidJSON\<close> accepts,
  applying the step of extraction and repair twice gives the same string as applying it
  once exactly when the string has no more opening than closing braces, or an even number
  of quotes; both are counted as \<open>fixIncompleteJSON\<close> counts them, over all
  characters, inside strings too and escaped or not. (The first application may still
  append to a valid object: closing brackets, closing braces or a quote that only these
  counts miss.)
\<close>

theorem normalizeReply_idempotent:
  "isValidJSON s \<longrightarrow>
     (normalizeReply (normalizeReply s) = normalizeReply s \<longleftrightarrow>
        count_list s LBRACE \<le> count_list s RBRACE \<or> even (count_list s QUOTE))"
proof
  assume valid: "isValidJSON s"
  from valid_shape[OF valid] obtain mid where t: "trimSpace s = LBRACE # mid @ [RBRACE]"
    and v: "isValidJSON (trimSpace s)" by blast
  define t' where "t' = LBRACE # mid @ [RBRACE]"
  define a where "a = count_list t' LBRACKET - count_list t' RBRACKET"
  define b where "b = count_list t' LBRACE - count_list t' RBRACE"
  define q where "q = (if even (count_list t' QUOTE) then [] else [QUOTE])"
  define u where "u = t' @ replicate a RBRACKET @ replicate b RBRACE @ q"
  have cnt: "count_list t' c = count_list s c" if "\<not> isSpace c" for c
    using count_trimSpace[OF that, of s] by (simp add: t t'_def)
  have fx: "fixIncompleteJSON t' = u"
    unfolding u_def a_def b_def q_def by (rule fix_braced) (simp_all add: t'_def)
  have n1: "normalizeReply s = u"
    using normalizeReply_valid[OF valid] fx by (simp add: t t'_def)
  have vt: "isValidJSON t'" using v by (simp add: t t'_def)
  have b0: "b = 0 \<longleftrightarrow> count_list s LBRACE \<le> count_list s RBRACE"
    by (simp add: b_def cnt not_space)
  have "normalizeReply u = u \<longleftrightarrow> b = 0 \<or> even (count_list t' QUOTE)"
  proof (cases "b = 0")
    case True
    then have ux: "u = LBRACE # mid @ RBRACE # (replicate a RBRACKET @ q)"
      by (simp add: u_def t'_def)
    have post: "RBRACE \<notin> set (replicate a RBRACKET @ q)"
      by (auto simp: q_def ne_runes)
    have "last u \<in> {RBRACE, RBRACKET, QUOTE}"
      using last_repaired[of "LBRACE # mid" a 0 "even (count_list t' QUOTE)"] True
      by (simp add: u_def t'_def q_def)
    then have l: "\<not> isSpace (last u)" "last u \<noteq> BACKTICK"
      using not_space not_tick by auto
    from extract_braced[OF ux post l] vt have "extractJSONFromContent u = t'"
      by (simp add: t'_def)
    then show ?thesis using True by (simp add: normalizeReply_def fx)
  next
    case False
    then obtain b' where b': "b = Suc b'" by (cases b) auto
    define j where "j = t' @ replicate a RBRACKET @ replicate b RBRACE"
    have jx: "j = LBRACE # (mid @ [RBRACE] @ replicate a RBRACKET @ replicate b' RBRACE) @ [RBRACE]"
      unfolding j_def b' t'_def by (simp add: replicate_append_same)
    have lj: "last j = RBRACE" unfolding jx by simp
    have hj: "j \<noteq> []" "hd j = LBRACE" unfolding jx by simp_all
    have c1: "count_list j LBRACKET - count_list j RBRACKET = 0"
      by (simp add: j_def count_list_replicate ne_runes a_def)
    have c2: "count_list j LBRACE - count_list j RBRACE = 0"
      by (simp add: j_def count_list_replicate ne_runes b_def)
    have c3: "count_list j QUOTE = count_list t' QUOTE"
      by (simp add: j_def count_list_replicate ne_runes)
    have fj: "fixIncompleteJSON j = j @ q"
      using fix_braced[OF hj lj] by (simp add: c1 c2 c3 q_def)
    have uj: "u = j @ q" by (simp add: u_def j_def)
    show ?thesis
    proof (cases "even (count_list t' QUOTE)")
      case True
      then have "u = j" by (simp add: uj q_def)
      have l: "\<not> isSpace (last u)" "last u \<noteq> BACKTICK"
        by (simp_all add: \<open>u = j\<close> lj not_space not_tick)
      have ux: "u = LBRACE # (mid @ [RBRACE] @ replicate a RBRACKET @ replicate b' RBRACE) @ RBRACE # []"
        using jx \<open>u = j\<close> by simp
      have fu: "fixIncompleteJSON u = u" using fj True by (simp add: \<open>u = j\<close> q_def)
      from extract_braced[OF ux _ l]
      have "extractJSONFromContent u = u \<or> extractJSONFromContent u = fixIncompleteJSON u"
        unfolding ux[symmetric] by (auto split: if_splits)
      then show ?thesis using True by (auto simp: normalizeReply_def fu)
    next
      case odd: False
      then have uq: "u = j @ [QUOTE]" by (simp add: uj q_def)
      have ux: "u = LBRACE # (mid @ [RBRACE] @ replicate a RBRACKET @ replicate b' RBRACE) @ RBRACE # [QUOTE]"
        unfolding uq jx by simp
      have l: "\<not> isSpace (last u)" "last u \<noteq> BACKTICK" "last u \<noteq> RBRACE"
        by (simp_all add: uq not_space not_tick ne_runes)
      have "\<not> isValidJSON j"
      proof -
        have "replicate a RBRACKET @ replicate b RBRACE \<noteq> []" using b' by simp
        then obtain c rest where cr: "replicate a RBRACKET @ replicate b RBRACE = c # rest"
          by (cases "replicate a RBRACKET @ replicate b RBRACE") auto
        then have "c \<in> set (replicate a RBRACKET @ replicate b RBRACE)" by simp
        then have c: "c = RBRACE \<or> c = RBRACKET" by auto
        have "j = (LBRACE # mid) @ [RBRACE] @ c # rest"
          by (simp add: j_def t'_def cr)
        moreover have "last (c # rest) = RBRACE"
          using lj cr by (simp add: j_def t'_def)
        then have "\<not> isValidJSON ((LBRACE # mid) @ [RBRACE] @ c # rest)"
          using vt c by (intro valid_then_closing) (simp_all add: t'_def not_space)
        ultimately show ?thesis by simp
      qed
      with extract_braced[OF ux _ l(1,2)] have "extractJSONFromContent u = u"
        unfolding jx[symmetric] using fj odd by (simp add: q_def uq ne_runes)
      then have "normalizeReply u = fixIncompleteJSON u" by (simp add: normalizeReply_def)
      moreover have "length u < length (fixIncompleteJSON u)"
        using l by (intro fix_grows) (simp_all add: uq hj)
      ultimately have "length (normalizeReply u) > length u" by simp
      then have "normalizeReply u \<noteq> u" by auto
      then show ?thesis using False odd by simp
    qed
  qed
  then show "normalizeReply (normalizeReply s) = normalizeReply s \<longleftrightarrow>
        count_list s LBRACE \<le> count_list s RBRACE \<or> even (count_list s QUOTE)"
    by (simp add: n1 b0 cnt not_space)
qed

text \<open>
  Claim C4. The claim asks that the step of extraction and repair, applied twice to a
  valid JSON object, gives what it gives applied once, with nothing appended a second
  time. The code departs from it, by the same defect as for the balance repair:
  \<open>fixIncompleteJSON\<close> counts the braces and quotes inside strings, and the batch
  runs it on every reply, valid or not. On the valid object whose one string value holds
  an opening brace and an escaped quote, the first application appends a closing brace
  and a quote, and the second one appends a further closing brace.
\<close>

theorem normalizeReply_appends_again:
  "isValidJSON (str ''{\"a\":\"{'' @ [BACKSLASH, QUOTE, QUOTE, RBRACE]) \<and>
   normalizeReply (str ''{\"a\":\"{'' @ [BACKSLASH, QUOTE, QUOTE, RBRACE])
     = str ''{\"a\":\"{'' @ [BACKSLASH, QUOTE, QUOTE, RBRACE] @ str ''}\"'' \<and>
   normalizeReply (normalizeReply (str ''{\"a\":\"{'' @ [BACKSLASH, QUOTE, QUOTE, RBRACE]))
     = str ''{\"a\":\"{'' @ [BACKSLASH, QUOTE, QUOTE, RBRACE] @ str ''}\"}'' \<and>
   normalizeReply (normalizeReply (str ''{\"a\":\"{'' @ [BACKSLASH, QUOTE, QUOTE, RBRACE]))
     \<noteq> normalizeReply (str ''{\"a\":\"{'' @ [BACKSLASH, QUOTE, QUOTE, RBRACE])"
  by (simp add: normalizeReply_def eval_defs)

text \<open>What the second application appends on that object: one closing brace.\<close>

theorem normalizeReply_appends_again_witness:
  "normalizeReply (normalizeReply (str ''{\"a\":\"{'' @ [BACKSLASH, QUOTE, QUOTE, RBRACE]))
     = normalizeReply (str ''{\"a\":\"{'' @ [BACKSLASH, QUOTE, QUOTE, RBRACE]) @ [RBRACE]"
proof -
  let ?x = "str ''{\"a\":\"{'' @ [BACKSLASH, QUOTE, QUOTE, RBRACE]"
  let ?once = "str ''{\"a\":\"{'' @ [BACKSLASH, QUOTE, QUOTE, RBRACE] @ str ''}\"''"
  let ?twice = "str ''{\"a\":\"{'' @ [BACKSLASH, QUOTE, QUOTE, RBRACE] @ str ''}\"}''"
  from normalizeReply_appends_again
  have a: "normalizeReply ?x = ?once" and b: "normalizeReply (normalizeReply ?x) = ?twice"
    by blast+
  have c: "?twice = ?once @ [RBRACE]"
    by (simp add: str_def RBRACE_def)
  from b c have "normalizeReply (normalizeReply ?x) = ?once @ [RBRACE]"
    by (rule trans)
  also have "?once = normalizeReply ?x" by (rule a [symmetric])
  finally show ?thesis .
qed

text \<open>The step on a valid object with an opening bracket in a string: the first application appends a closing bracket, the second changes nothing.\<close>

theorem normalizeReply_idempotent_witness:
  "isValidJSON (str ''{\"a\":\"[\"}'') \<and>
   count_list (str ''{\"a\":\"[\"}'') LBRACE \<le> count_list (str ''{\"a\":\"[\"}'') RBRACE \<and>
   normalizeReply (str ''{\"a\":\"[\"}'') = str ''{\"a\":\"[\"}]'' \<and>
   normalizeReply (normalizeReply (str ''{\"a\":\"[\"}'')) = normalizeReply (str ''{\"a\":\"[\"}'')"
proof -
  have 1: "isValidJSON (str ''{\"a\":\"[\"}'')" by (simp add: eval_defs)
  have 2: "count_list (str ''{\"a\":\"[\"}'') LBRACE \<le> count_list (str ''{\"a\":\"[\"}'') RBRACE"
    by (simp add: eval_defs)
  have 3: "normalizeReply (str ''{\"a\":\"[\"}'') = str ''{\"a\":\"[\"}]''"
    by (simp add: normalizeReply_def eval_defs)
  from normalizeReply_idempotent[of "str ''{\"a\":\"[\"}''"] 1 2
  have "normalizeReply (normalizeReply (str ''{\"a\":\"[\"}'')) = normalizeReply (str ''{\"a\":\"[\"}'')"
    by blast
  with 1 2 3 show ?thesis by blast
qed

section \<open>Properties of the engine\<close>

subsection \<open>The chunker\<close>

lemma splitFrom_concat:
  "i \<le> length files \<Longrightarrow> concat (splitFrom i files chunks) = concat chunks @ drop i files"
proof (induction i files chunks rule: splitFrom.induct)
  case (1 i files chunks)
  show ?case
  proof (cases "i < length files")
    case False
    with 1(2) show ?thesis by (subst splitFrom.simps) simp
  next
    case True
    show ?thesis
    proof (cases "i + maxFilesPerChunk > length files")
      case over: True
      have "splitFrom (i + maxFilesPerChunk) files (chunks @ [slice files (int i) (int (length files))])
              = chunks @ [slice files (int i) (int (length files))]"
        using over by (subst splitFrom.simps) simp
      then show ?thesis
        using True over by (subst splitFrom.simps) (simp add: Let_def slice_def)
    next
      case within: False
      then have le: "i + maxFilesPerChunk \<le> length files" by simp
      have "concat (splitFrom (i + maxFilesPerChunk) files
                (chunks @ [slice files (int i) (int (i + maxFilesPerChunk))]))
            = concat (chunks @ [slice files (int i) (int (i + maxFilesPerChunk))])
                @ drop (i + maxFilesPerChunk) files"
        using 1(1)[OF True refl refl le] within by simp
      moreover have "take maxFilesPerChunk (drop i files) @ drop (i + maxFilesPerChunk) files = drop i files"
        by (metis append_take_drop_id drop_drop add.commute)
      ultimately show ?thesis
        using True within by (subst splitFrom.simps) (simp add: Let_def slice_def)
    qed
  qed
qed

lemma splitFrom_sizes:
  "\<forall>c\<in>set chunks. length c = maxFilesPerChunk \<Longrightarrow>
     (\<forall>c\<in>set (butlast (splitFrom i files chunks)). length c = maxFilesPerChunk) \<and>
     (splitFrom i files chunks \<noteq> [] \<longrightarrow>
        1 \<le> length (last (splitFrom i files chunks)) \<and>
        length (last (splitFrom i files chunks)) \<le> maxFilesPerChunk)"
proof (induction i files chunks rule: splitFrom.induct)
  case (1 i files chunks)
  show ?case
  proof (cases "i < length files")
    case False
    then have "splitFrom i files chunks = chunks" by (subst splitFrom.simps) simp
    with 1(2) show ?thesis
      by (auto simp: maxFilesPerChunk_def dest: in_set_butlastD)
  next
    case True
    show ?thesis
    proof (cases "i + maxFilesPerChunk > length files")
      case over: True
      define k where "k = slice files (int i) (int (length files))"
      have "splitFrom (i + maxFilesPerChunk) files (chunks @ [k]) = chunks @ [k]"
        using over by (subst splitFrom.simps) simp
      then have r: "splitFrom i files chunks = chunks @ [k]"
        using True over by (subst splitFrom.simps) (simp add: Let_def k_def)
      have "1 \<le> length k" "length k \<le> maxFilesPerChunk"
        using True over by (auto simp: k_def slice_def)
      with r 1(2) show ?thesis by simp
    next
      case within: False
      define k where "k = slice files (int i) (int (i + maxFilesPerChunk))"
      have r: "splitFrom i files chunks = splitFrom (i + maxFilesPerChunk) files (chunks @ [k])"
        using True within by (subst splitFrom.simps) (simp add: Let_def k_def)
      have lk: "length k = maxFilesPerChunk"
        using within by (simp add: k_def slice_def)
      have all: "\<forall>c\<in>set (chunks @ [k]). length c = maxFilesPerChunk"
      proof
        fix c assume "c \<in> set (chunks @ [k])"
        then consider "c \<in> set chunks" | "c = k" by auto
        then show "length c = maxFilesPerChunk" using 1(2) lk by cases blast+
      qed
      have e: "(if length files < i + maxFilesPerChunk then length files
                else i + maxFilesPerChunk) = i + maxFilesPerChunk"
        using within by simp
      note IH = 1(1)[OF True refl refl, unfolded e, folded k_def]
      show ?thesis unfolding r using all by (rule IH)
    qed
  qed
qed

lemma splitFileList_empty: "splitFileList [] = []"
  by (simp add: splitFileList_def splitFrom.simps)

lemma runWorkers_no_chunks: "runWorkers U A [] sched d = Some d"
  by (induction sched) auto

lemma ClassifyFiles_empty: "ClassifyFiles U A sched [] = Inr []"
  by (simp add: ClassifyFiles_def splitFileList_empty processChunksConcurrently_def
      runWorkers_no_chunks handleUnclassifiedFiles_def mergeClassificationResults_def)

text \<open>
  Claim C9. The batches of \<open>splitFileList\<close>, concatenated in their order, are the
  input list; every batch but the last holds exactly 150 files, and the last one, when
  there is one, holds between 1 and 150. For the empty input there is no batch, and
  \<open>ClassifyFiles\<close> returns the empty map and no error, whatever the transport, the
  decoder and the schedule.
\<close>

theorem splitFileList_batches:
  "concat (splitFileList files) = files \<and>
   (\<forall>c\<in>set (butlast (splitFileList files)). length c = 150) \<and>
   (splitFileList files \<noteq> [] \<longrightarrow>
      1 \<le> length (last (splitFileList files)) \<and> length (last (splitFileList files)) \<le> 150) \<and>
   splitFileList ([] :: FileInfo list) = [] \<and>
   ClassifyFiles U A sched [] = Inr []"
  using splitFrom_concat[of 0 files "[]"] splitFrom_sizes[of "[]" 0 files]
  by (simp add: splitFileList_def[symmetric] maxFilesPerChunk_def splitFileList_empty
      ClassifyFiles_empty)

text \<open>The chunker on 151 files: a batch of 150 and a batch of 1.\<close>

theorem splitFileList_batches_witness:
  "splitFileList (replicate 151 aFile) \<noteq> [] \<and>
   replicate 150 aFile \<in> set (butlast (splitFileList (replicate 151 aFile))) \<and>
   length (replicate 150 aFile) = 150 \<and>
   concat (splitFileList (replicate 151 aFile)) = replicate 151 aFile \<and>
   1 \<le> length (last (splitFileList (replicate 151 aFile))) \<and>
   length (last (splitFileList (replicate 151 aFile))) \<le> 150"
proof -
  have s: "splitFileList (replicate 151 aFile) = [replicate 150 aFile, replicate 1 aFile]"
    by (simp add: splitFileList_def splitFrom.simps[of _ "replicate 151 aFile"]
        maxFilesPerChunk_def slice_def Let_def)
  have 1: "splitFileList (replicate 151 aFile) \<noteq> []" by (simp add: s)
  have 2: "replicate 150 aFile \<in> set (butlast (splitFileList (replicate 151 aFile)))"
    by (simp add: s)
  from splitFileList_batches[of "replicate 151 aFile"] 1 2 show ?thesis by blast
qed

subsection \<open>The retry loop\<close>









lemma splitFileList_concat: "concat (splitFileList files) = files"
  using splitFrom_concat[of 0 files "[]"] by (simp add: splitFileList_def)

lemma chunk_subset:
  "i < length (splitFileList files) \<Longrightarrow> set (splitFileList files ! i) \<subseteq> set files"
proof -
  assume "i < length (splitFileList files)"
  then have "splitFileList files ! i \<in> set (splitFileList files)"
    by (rule nth_mem)
  then have "set (splitFileList files ! i) \<subseteq> set (concat (splitFileList files))"
    by auto
  then show ?thesis by (simp add: splitFileList_concat)
qed

lemma in_concat_nth: "k < length xss \<Longrightarrow> x \<in> set (xss ! k) \<Longrightarrow> x \<in> set (concat xss)"
  using nth_mem[of k xss] by auto

lemma distinct_concat_nth:
  "distinct (concat xss) \<Longrightarrow> i < length xss \<Longrightarrow> j < length xss \<Longrightarrow>
     x \<in> set (xss ! i) \<Longrightarrow> x \<in> set (xss ! j) \<Longrightarrow> i = j"
proof (induction xss arbitrary: i j)
  case Nil
  then show ?case by simp
next
  case (Cons xs xss)
  show ?case
  proof (cases i)
    case 0
    show ?thesis
    proof (cases j)
      case 0
      with \<open>i = 0\<close> show ?thesis by simp
    next
      case (Suc j')
      with Cons.prems 0 have "x \<in> set xs" "x \<in> set (concat xss)"
        by (auto intro: in_concat_nth)
      with Cons.prems(1) show ?thesis by auto
    qed
  next
    case (Suc i')
    show ?thesis
    proof (cases j)
      case 0
      with Cons.prems Suc have "x \<in> set xs" "x \<in> set (concat xss)"
        by (auto intro: in_concat_nth)
      with Cons.prems(1) show ?thesis by auto
    next
      case (Suc j')
      with Cons.prems \<open>i = Suc i'\<close> Cons.IH[of i' j'] show ?thesis by simp
    qed
  qed
qed

lemma chunks_disjoint:
  assumes "distinct (map Path files)"
    and "i < length (splitFileList files)" "j < length (splitFileList files)"
    and "p \<in> Path ` set (splitFileList files ! i)" "p \<in> Path ` set (splitFileList files ! j)"
  shows "i = j"
proof -
  have "concat (map (map Path) (splitFileList files)) = map Path files"
    by (simp add: map_concat[symmetric] splitFileList_concat)
  with assms(1) have "distinct (concat (map (map Path) (splitFileList files)))" by simp
  from distinct_concat_nth[OF this, of i j p] assms(2-5) show ?thesis by simp
qed

subsection \<open>The resolver\<close>

lemma matchFile_find:
  "matchFile c p chunk (cf, pf) =
     (case find (\<lambda>file. Path file = p) chunk of
        None \<Rightarrow> (cf, pf)
      | Some file \<Rightarrow> (AList.update c (mapGet cf c @ [file\<lparr>Category := c\<rparr>]) cf,
                      AList.update p True pf))"
  by (induction chunk) (auto simp: Let_def)

lemma find_path_None: "find (\<lambda>file. Path file = p) chunk = None \<longleftrightarrow> p \<notin> Path ` set chunk"
  by (auto simp: find_None_iff)

lemma update_append_fresh:
  "c \<notin> fst ` set cf \<Longrightarrow> AList.update c v (cf @ (c, l) # rest) = cf @ (c, v) # rest"
  by (induction cf) auto

lemma update_fresh: "c \<notin> fst ` set cf \<Longrightarrow> AList.update c v cf = cf @ [(c, v)]"
  by (induction cf) auto

lemma mapGet_append_fresh:
  "c \<notin> fst ` set cf \<Longrightarrow> mapGet (cf @ (c, l) # rest) c = l"
  by (induction cf) (auto simp: mapGet_def)

lemma resolvePaths_fresh:
  assumes "c \<notin> fst ` set cf"
  shows "resolvePaths c ps chunk (cf @ [(c, l)], pf) =
           (cf @ [(c, l @ matches c ps chunk)],
            markAll (filter (\<lambda>p. p \<in> Path ` set chunk) ps) pf)"
  using assms
proof (induction ps arbitrary: l pf)
  case Nil
  then show ?case by (simp add: matches_def markAll_def)
next
  case (Cons p ps)
  show ?case
  proof (cases "find (\<lambda>file. Path file = p) chunk")
    case None
    then have "p \<notin> Path ` set chunk" by (simp add: find_path_None)
    with None Cons show ?thesis
      by (simp add: matchFile_find matches_def markAll_def)
  next
    case (Some f)
    then have "p \<in> Path ` set chunk"
      using find_path_None[of p chunk] by auto
    with Some Cons.prems Cons.IH[OF Cons.prems, of "l @ [f\<lparr>Category := c\<rparr>]" "AList.update p True pf"]
    show ?thesis
      by (simp add: matchFile_find matches_def markAll_def update_append_fresh
          mapGet_append_fresh)
  qed
qed

lemma resolveCategories_fresh:
  assumes "distinct (map fst cats)" "fst ` set cats \<inter> fst ` set cf = {}"
  shows "resolveCategories cats chunk (cf, pf) =
           (cf @ map (\<lambda>(c, ps). (c, matches c ps chunk)) cats, markAll (hits cats chunk) pf)"
  using assms
proof (induction cats arbitrary: cf pf)
  case Nil
  then show ?case by (simp add: hits_def markAll_def)
next
  case (Cons a cats)
  obtain c ps where a: "a = (c, ps)" by (cases a)
  from Cons.prems a have fresh: "c \<notin> fst ` set cf" by auto
  have step: "resolvePaths c ps chunk (AList.update c [] cf, pf) =
      (cf @ [(c, matches c ps chunk)], markAll (filter (\<lambda>p. p \<in> Path ` set chunk) ps) pf)"
    using resolvePaths_fresh[OF fresh, of ps chunk "[]" pf] by (simp add: update_fresh[OF fresh])
  have d: "distinct (map fst cats)" using Cons.prems by simp
  have "fst ` set cats \<inter> fst ` set (cf @ [(c, matches c ps chunk)]) = {}"
    using Cons.prems a by auto
  from Cons.IH[OF d this] show ?case
    by (simp add: a step hits_def markAll_def)
qed


lemma entriesOf_simps [simp]:
  "entriesOf [] = []"
  "entriesOf ((c, fs) # m) = map (Pair c) fs @ entriesOf m"
  "entriesOf (m @ m') = entriesOf m @ entriesOf m'"
  by (simp_all add: entriesOf_def)

lemma entriesOf_update:
  "mset (entriesOf (AList.update c (mapGet m c @ fs) m)) = mset (entriesOf m) + mset (map (Pair c) fs)"
proof (induction m)
  case Nil
  then show ?case by (simp add: mapGet_def)
next
  case (Cons a m)
  obtain c' fs' where a: "a = (c', fs')" by (cases a)
  show ?case
  proof (cases "c' = c")
    case True
    then show ?thesis by (simp add: a mapGet_def)
  next
    case False
    then have "mapGet (a # m) c = mapGet m c" by (simp add: a mapGet_def)
    with False Cons show ?thesis by (simp add: a)
  qed
qed

lemma entriesOf_mergeResult:
  "mset (entriesOf (mergeResult r merged)) = mset (entriesOf merged) + mset (entriesOf r)"
  by (induction r merged rule: mergeResult.induct) (simp_all add: entriesOf_update)

lemma entriesOf_mergeResults:
  "mset (entriesOf (mergeResults rs merged)) = mset (entriesOf merged) + mset (concat (map entriesOf rs))"
  by (induction rs arbitrary: merged) (simp_all add: entriesOf_mergeResult)

lemma entriesOf_merge:
  "mset (entriesOf (mergeClassificationResults rs)) = mset (concat (map entriesOf rs))"
  by (simp add: mergeClassificationResults_def entriesOf_mergeResults)

lemma distinct_mergeResult:
  "distinct (map fst merged) \<Longrightarrow> distinct (map fst (mergeResult r merged))"
  by (induction r merged rule: mergeResult.induct) (simp_all add: distinct_update)

lemma distinct_mergeResults:
  "distinct (map fst merged) \<Longrightarrow> distinct (map fst (mergeResults rs merged))"
  by (induction rs arbitrary: merged) (simp_all add: distinct_mergeResult)

lemma find_path_Some:
  "find (\<lambda>file. Path file = p) chunk = Some f \<Longrightarrow> f \<in> set chunk \<and> Path f = p"
  by (induction chunk) (auto split: if_splits)

lemma matches_paths:
  "map Path (matches c ps chunk) = filter (\<lambda>p. p \<in> Path ` set chunk) ps"
proof (induction ps)
  case Nil
  then show ?case by (simp add: matches_def)
next
  case (Cons p ps)
  show ?case
  proof (cases "find (\<lambda>file. Path file = p) chunk")
    case None
    then have "p \<notin> Path ` set chunk" by (simp add: find_path_None)
    with None Cons show ?thesis by (simp add: matches_def)
  next
    case (Some f)
    with Cons find_path_Some[OF Some] show ?thesis by (auto simp: matches_def)
  qed
qed


lemma in_matches:
  "f \<in> set (matches c ps chunk) \<longleftrightarrow>
     (\<exists>p\<in>set ps. \<exists>g. find (\<lambda>file. Path file = p) chunk = Some g \<and> f = g\<lparr>Category := c\<rparr>)"
proof (induction ps)
  case Nil
  then show ?case by (simp add: matches_def)
next
  case (Cons p ps)
  have "matches c (p # ps) chunk =
      (case find (\<lambda>file. Path file = p) chunk of None \<Rightarrow> [] | Some g \<Rightarrow> [g\<lparr>Category := c\<rparr>])
        @ matches c ps chunk"
    by (simp add: matches_def)
  with Cons show ?case
    by (cases "find (\<lambda>file. Path file = p) chunk") auto
qed

lemma entries_resolved_set:
  "(c, f) \<in> set (entriesOf (map (\<lambda>(c, ps). (c, matches c ps chunk)) cats)) \<Longrightarrow>
     \<exists>ps. (c, ps) \<in> set cats \<and> Path f \<in> set ps \<and> Path f \<in> Path ` set chunk \<and> Category f = c"
proof (induction cats)
  case Nil
  then show ?case by simp
next
  case (Cons a cats)
  obtain c' ps' where a: "a = (c', ps')" by (cases a)
  from Cons.prems consider "c = c'" "f \<in> set (matches c' ps' chunk)"
    | "(c, f) \<in> set (entriesOf (map (\<lambda>(c, ps). (c, matches c ps chunk)) cats))"
    by (auto simp: a)
  then show ?case
  proof cases
    case 1
    then obtain p g where "p \<in> set ps'" "find (\<lambda>file. Path file = p) chunk = Some g"
      "f = g\<lparr>Category := c'\<rparr>"
      unfolding in_matches by blast
    with find_path_Some[of p chunk g] 1 show ?thesis by (auto simp: a)
  next
    case 2
    with Cons.IH show ?thesis by auto
  qed
qed



lemma processClassificationChunk_error:
  "processClassificationChunk U T chunk pf = Inl e \<longleftrightarrow> decodeReply U T = Inl e"
  by (auto simp: processClassificationChunk_def split: sum.splits)

lemma processClassificationChunk_ok:
  assumes "decodeReply U T = Inr cats" "distinct (map fst cats)"
  shows "processClassificationChunk U T chunk pf =
           Inr (batchResult cats chunk, markAll (hits cats chunk) pf)"
  using assms resolveCategories_fresh[of cats "[]" chunk pf]
  by (simp add: processClassificationChunk_def batchResult_def)

subsection \<open>The retry loop and the batch\<close>




subsection \<open>The processed set\<close>

lemma initProcessed_fresh:
  "distinct (map Path files) \<Longrightarrow> Path ` set files \<inter> fst ` set pf = {} \<Longrightarrow>
     initProcessed files pf = pf @ map (\<lambda>f. (Path f, False)) files"
proof (induction files arbitrary: pf)
  case Nil
  then show ?case by simp
next
  case (Cons f files)
  from Cons.prems have fresh: "Path f \<notin> fst ` set pf" by auto
  have "Path ` set files \<inter> fst ` set (pf @ [(Path f, False)]) = {}"
    using Cons.prems by auto
  with Cons.IH[of "pf @ [(Path f, False)]"] Cons.prems show ?case
    by (simp add: update_fresh[OF fresh])
qed

lemma update_True_map:
  "distinct (map fst pf) \<Longrightarrow> h \<in> fst ` set pf \<Longrightarrow>
     AList.update h True pf = map (\<lambda>(p, b). (p, b \<or> p = h)) pf"
proof (induction pf)
  case Nil
  then show ?case by simp
next
  case (Cons a pf)
  obtain p b where a: "a = (p, b)" by (cases a)
  show ?case
  proof (cases "p = h")
    case True
    with Cons.prems a have "h \<notin> fst ` set pf" by auto
    then have "map (\<lambda>(p, b). (p, b \<or> p = h)) pf = pf"
      by (induction pf) auto
    with True show ?thesis by (simp add: a)
  next
    case False
    with Cons a show ?thesis by auto
  qed
qed

lemma markAll_map:
  "distinct (map fst pf) \<Longrightarrow> set hs \<subseteq> fst ` set pf \<Longrightarrow>
     markAll hs pf = map (\<lambda>(p, b). (p, b \<or> p \<in> set hs)) pf"
proof (induction hs arbitrary: pf)
  case Nil
  then show ?case by (simp add: markAll_def)
next
  case (Cons h hs)
  let ?pf = "map (\<lambda>(p, b). (p, b \<or> p = h)) pf"
  have u: "AList.update h True pf = ?pf"
    using Cons.prems by (intro update_True_map) auto
  have k: "map fst ?pf = map fst pf" by (induction pf) auto
  have d: "distinct (map fst ?pf)" using Cons.prems(1) unfolding k .
  have "fst ` set ?pf = fst ` set pf"
    using k by (metis set_map)
  then have s: "set hs \<subseteq> fst ` set ?pf" using Cons.prems(2) by simp
  have "markAll hs ?pf = map (\<lambda>(p, b). (p, b \<or> p \<in> set hs)) ?pf"
    using d s by (rule Cons.IH)
  moreover have "markAll (h # hs) pf = markAll hs ?pf"
    by (simp add: markAll_def u)
  ultimately show ?case by (auto simp: case_prod_unfold)
qed

lemma markAll_append: "markAll (xs @ ys) pf = markAll ys (markAll xs pf)"
  by (simp add: markAll_def)

subsection \<open>The completeness guard\<close>

lemma firstWithPath_matches:
  "firstWithPath p files acc = acc @ matches unclassified [p] files"
  by (induction files) (auto simp: matches_def)

lemma collectUnclassified_matches:
  "collectUnclassified ps files acc = acc @ matches unclassified ps files"
proof (induction ps arbitrary: acc)
  case Nil
  then show ?case by (simp add: matches_def)
next
  case (Cons p ps)
  have "matches unclassified (p # ps) files
      = matches unclassified [p] files @ matches unclassified ps files"
    by (simp add: matches_def)
  with Cons show ?case by (simp add: firstWithPath_matches)
qed

lemma handleUnclassifiedFiles_matches:
  "handleUnclassifiedFiles files pf =
     (let unprocessed = map fst (filter (\<lambda>(p, b). \<not> b) pf)
      in if unprocessed = [] then [] else [(unclassified, matches unclassified unprocessed files)])"
  by (simp add: handleUnclassifiedFiles_def collectUnclassified_matches Let_def)

subsection \<open>The workers\<close>

lemma runWorkers_panic:
  assumes "i \<in> set sched" "i < length chunks" "decodeReply U (A i) = Inl Panic"
  shows "runWorkers U A chunks sched d = None"
  using assms
proof (induction sched arbitrary: d)
  case Nil
  then show ?case by simp
next
  case (Cons j sched)
  show ?case
  proof (cases "j = i")
    case True
    with Cons.prems show ?thesis
      by (simp add: processClassificationChunk_def)
  next
    case False
    with Cons.prems have "i \<in> set sched" by simp
    with Cons show ?thesis
      by (auto split: sum.splits failure.splits)
  qed
qed

lemma runWorkers_errors:
  assumes "\<forall>i\<in>set sched. i < length chunks \<and> decodeReply U (A i) \<noteq> Inl Panic"
  shows "\<exists>d'. runWorkers U A chunks sched d = Some d' \<and>
           errChan d' = errChan d @ batchErrors U A sched"
  using assms
proof (induction sched arbitrary: d)
  case Nil
  then show ?case by (simp add: batchErrors_def)
next
  case (Cons j sched)
  then have j: "j < length chunks" "decodeReply U (A j) \<noteq> Inl Panic" by auto
  show ?case
  proof (cases "decodeReply U (A j)")
    case (Inl e)
    with j obtain msg where e: "e = Failure msg" by (cases e) auto
    have "processClassificationChunk U (A j) (chunks ! j) (processedSet d) = Inl (Failure msg)"
      using Inl e by (simp add: processClassificationChunk_error)
    moreover have "batchErrors U A (j # sched) = batchFailed (j + 1) msg # batchErrors U A sched"
      using Inl e by (simp add: batchErrors_def)
    ultimately show ?thesis
      using j Cons.IH[of "d\<lparr>errChan := errChan d @ [batchFailed (j + 1) msg]\<rparr>"] Cons.prems
      by auto
  next
    case (Inr cats)
    then obtain r where r: "processClassificationChunk U (A j) (chunks ! j) (processedSet d) = Inr r"
      by (simp add: processClassificationChunk_def)
    obtain res pf' where rp: "r = (res, pf')" by (cases r)
    have "batchErrors U A (j # sched) = batchErrors U A sched"
      using Inr by (simp add: batchErrors_def)
    then show ?thesis
      using j r rp Cons.IH[of "d\<lparr>collected := collected d @ [res], processedSet := pf'\<rparr>"] Cons.prems
      by auto
  qed
qed

lemma runWorkers_success:
  assumes "\<forall>i\<in>set sched. i < length chunks \<and>
             (\<exists>cats. decodeReply U (A i) = Inr cats \<and> distinct (map fst cats))"
  shows "runWorkers U A chunks sched d =
           Some (d\<lparr>collected := collected d @ map (resolvedBatch U A chunks) sched,
                   processedSet := markAll (concat (map (batchHits U A chunks) sched)) (processedSet d)\<rparr>)"
  using assms
proof (induction sched arbitrary: d)
  case Nil
  then show ?case by (simp add: markAll_def)
next
  case (Cons j sched)
  then obtain cats where j: "j < length chunks" "decodeReply U (A j) = Inr cats"
    "distinct (map fst cats)" by auto
  have p: "processClassificationChunk U (A j) (chunks ! j) (processedSet d)
      = Inr (resolvedBatch U A chunks j, markAll (batchHits U A chunks j) (processedSet d))"
    using processClassificationChunk_ok[OF j(2,3)]
    by (simp add: resolvedBatch_def batchHits_def j(2))
  from Cons.prems have "\<forall>i\<in>set sched. i < length chunks \<and>
             (\<exists>cats. decodeReply U (A i) = Inr cats \<and> distinct (map fst cats))" by simp
  from Cons.IH[OF this] show ?case
    using j(1) p by (simp add: markAll_append)
qed


lemma map_of_markAll:
  "map_of (markAll hs pf) p = (if p \<in> set hs then Some True else map_of pf p)"
proof (induction hs arbitrary: pf)
  case Nil
  then show ?case by (simp add: markAll_def)
next
  case (Cons h hs)
  have "markAll (h # hs) pf = markAll hs (AList.update h True pf)"
    by (simp add: markAll_def)
  with Cons[of "AList.update h True pf"] show ?case
    by (simp add: update_conv')
qed

text \<open>
  Claim C6. For a reply that decodes to a map, \<open>processClassificationChunk\<close> returns
  no error, whatever paths the reply lists. Its result has the categories of the reply;
  under each stand, in the order of the reply, the records of the current batch (the
  function looks at no other) that a listed path matches, each with this category as its
  category field, and a listed path that no record of the batch has contributes nothing.
  In the processed set exactly the listed paths that are paths of the batch are marked;
  every other entry is as before.
\<close>

theorem resolver_scoped_and_tolerant:
  "decodeReply U T = Inr categories \<and> distinct (map fst categories) \<longrightarrow>
     (\<exists>processed'.
        processClassificationChunk U T chunk processedFiles
          = Inr (batchResult categories chunk, processed') \<and>
        (\<forall>path. map_of processed' path =
           (if path \<in> set (concat (map snd categories)) \<and> path \<in> Path ` set chunk
            then Some True else map_of processedFiles path)))"
proof (intro impI, elim conjE)
  assume a: "decodeReply U T = Inr categories" "distinct (map fst categories)"
  have "map_of (markAll (hits categories chunk) processedFiles) path =
           (if path \<in> set (concat (map snd categories)) \<and> path \<in> Path ` set chunk
            then Some True else map_of processedFiles path)" for path
    unfolding map_of_markAll by (simp add: hits_def)
  with processClassificationChunk_ok[OF a, of chunk processedFiles]
  show "\<exists>processed'.
        processClassificationChunk U T chunk processedFiles
          = Inr (batchResult categories chunk, processed') \<and>
        (\<forall>path. map_of processed' path =
           (if path \<in> set (concat (map snd categories)) \<and> path \<in> Path ` set chunk
            then Some True else map_of processedFiles path))"
    by blast
qed

lemma batchErrors_first:
  assumes "j \<in> set sched" "decodeReply U (A j) = Inl (Failure m)"
  shows "\<exists>pre k post msg. sched = pre @ k # post \<and>
           (\<forall>i\<in>set pre. \<forall>msg'. decodeReply U (A i) \<noteq> Inl (Failure msg')) \<and>
           decodeReply U (A k) = Inl (Failure msg) \<and>
           batchErrors U A sched = batchFailed (k + 1) msg # batchErrors U A post"
  using assms
proof (induction sched)
  case Nil
  then show ?case by simp
next
  case (Cons a sched)
  show ?case
  proof (cases "\<exists>msg. decodeReply U (A a) = Inl (Failure msg)")
    case True
    then obtain msg where "decodeReply U (A a) = Inl (Failure msg)" by blast
    then have "a # sched = [] @ a # sched \<and>
           (\<forall>i\<in>set []. \<forall>msg'. decodeReply U (A i) \<noteq> Inl (Failure msg')) \<and>
           decodeReply U (A a) = Inl (Failure msg) \<and>
           batchErrors U A (a # sched) = batchFailed (a + 1) msg # batchErrors U A sched"
      by (simp add: batchErrors_def)
    then show ?thesis by blast
  next
    case False
    with Cons.prems have "j \<in> set sched" by auto
    from Cons.IH this Cons.prems(2) obtain pre k post msg where
      1: "sched = pre @ k # post"
         "\<forall>i\<in>set pre. \<forall>msg'. decodeReply U (A i) \<noteq> Inl (Failure msg')"
         "decodeReply U (A k) = Inl (Failure msg)"
         "batchErrors U A sched = batchFailed (k + 1) msg # batchErrors U A post"
      by blast
    have "batchErrors U A (a # sched) = batchErrors U A sched"
      using False by (auto simp: batchErrors_def split: sum.splits failure.splits)
    with 1 False have "a # sched = (a # pre) @ k # post \<and>
           (\<forall>i\<in>set (a # pre). \<forall>msg'. decodeReply U (A i) \<noteq> Inl (Failure msg')) \<and>
           decodeReply U (A k) = Inl (Failure msg) \<and>
           batchErrors U A (a # sched) = batchFailed (k + 1) msg # batchErrors U A post"
      by auto
    then show ?thesis by blast
  qed
qed

lemma perm_sched:
  assumes "mset sched = mset [0..<n]"
  shows "set sched = {0..<n}" "distinct sched"
proof -
  from assms have "set_mset (mset sched) = set_mset (mset [0..<n])" by simp
  then show "set sched = {0..<n}" by simp
  from assms show "distinct sched"
    by (metis distinct_upt mset_eq_imp_distinct_iff)
qed

text \<open>
  What the call does when the pipeline of some batch returns an error. Either some batch
  panics, and the call with it; or the call returns no map but the error of the batch
  that failed first in the order of completion, with the number of the batch in front,
  and the results collected from the batches before it are dropped.
\<close>

theorem ClassifyFiles_no_partial_commit:
  assumes "mset sched = mset [0..<length (splitFileList files)]"
    and "i < length (splitFileList files)"
    and "processClassificationChunk U (A i) (splitFileList files ! i) pf = Inl err"
  shows "ClassifyFiles U A sched files = Inl Panic \<and>
           (\<exists>j<length (splitFileList files).
              processClassificationChunk U (A j) (splitFileList files ! j) pf = Inl Panic)
         \<or> (\<exists>pre j post msg.
              sched = pre @ j # post \<and>
              (\<forall>k\<in>set pre. \<exists>r. processClassificationChunk U (A k) (splitFileList files ! k) pf = Inr r) \<and>
              processClassificationChunk U (A j) (splitFileList files ! j) pf = Inl (Failure msg) \<and>
              ClassifyFiles U A sched files = Inl (Failure (batchFailed (j + 1) msg)))"
proof -
  define chunks where "chunks = splitFileList files"
  note s = perm_sched[OF assms(1), folded chunks_def]
  have i: "i \<in> set sched" using assms(2) s(1) by (simp add: chunks_def)
  have e: "decodeReply U (A i) = Inl err"
    using assms(3) by (simp add: processClassificationChunk_error)
  show ?thesis
  proof (cases "\<exists>j\<in>set sched. decodeReply U (A j) = Inl Panic")
    case True
    then obtain j where j: "j \<in> set sched" "decodeReply U (A j) = Inl Panic" by blast
    then have jn: "j < length chunks" using s(1) by simp
    have "runWorkers U A chunks sched d = None" for d
      using j(1) jn j(2) by (rule runWorkers_panic)
    then have "ClassifyFiles U A sched files = Inl Panic"
      by (simp add: ClassifyFiles_def processChunksConcurrently_def chunks_def[symmetric])
    moreover have "processClassificationChunk U (A j) (splitFileList files ! j) pf = Inl Panic"
      using j(2) by (simp add: processClassificationChunk_error)
    ultimately show ?thesis using jn by (auto simp: chunks_def)
  next
    case False
    then have np: "\<forall>i\<in>set sched. i < length chunks \<and> decodeReply U (A i) \<noteq> Inl Panic"
      using s(1) by auto
    with e i obtain m where m: "err = Failure m" by (cases err) auto
    from batchErrors_first[of i sched U A m] i e[unfolded m] obtain pre k post msg where
      1: "sched = pre @ k # post"
         "\<forall>i\<in>set pre. \<forall>msg'. decodeReply U (A i) \<noteq> Inl (Failure msg')"
         "decodeReply U (A k) = Inl (Failure msg)"
         "batchErrors U A sched = batchFailed (k + 1) msg # batchErrors U A post"
      by blast
    from runWorkers_errors[OF np, of "\<lparr>collected = [], errChan = [], processedSet = initProcessed files []\<rparr>"]
    obtain d' where d': "runWorkers U A chunks sched
          \<lparr>collected = [], errChan = [], processedSet = initProcessed files []\<rparr> = Some d'"
        "errChan d' = batchErrors U A sched" by auto
    have c: "ClassifyFiles U A sched files = Inl (Failure (batchFailed (k + 1) msg))"
      using d' 1(4)
      by (simp add: ClassifyFiles_def processChunksConcurrently_def chunks_def[symmetric])
    have "\<exists>r. processClassificationChunk U (A k') (splitFileList files ! k') pf = Inr r"
      if "k' \<in> set pre" for k'
    proof -
      from that 1(1) have "k' \<in> set sched" by simp
      with np have "decodeReply U (A k') \<noteq> Inl Panic" by blast
      moreover from that 1(2) have "\<forall>msg'. decodeReply U (A k') \<noteq> Inl (Failure msg')" by blast
      ultimately obtain cats where "decodeReply U (A k') = Inr cats"
        by (cases "decodeReply U (A k')") (metis failure.exhaust, blast)
      then show ?thesis by (simp add: processClassificationChunk_def)
    qed
    moreover have "processClassificationChunk U (A k) (splitFileList files ! k) pf = Inl (Failure msg)"
      using 1(3) by (simp add: processClassificationChunk_error)
    ultimately show ?thesis using 1(1) c by blast
  qed
qed


subsection \<open>The whole call\<close>

lemma batchHits_subset:
  "set (batchHits U A chunks i) \<subseteq> Path ` set (chunks ! i)"
  by (auto simp: batchHits_def hits_def split: sum.splits)




text \<open>What \<open>ClassifyFiles\<close> returns when it returns a map.\<close>

lemma ClassifyFiles_success:
  assumes perm: "mset sched = mset [0..<length (splitFileList files)]"
    and maps: "decodesToMaps U A (length (splitFileList files))"
    and dist: "distinct (map Path files)"
    and ok: "ClassifyFiles U A sched files = Inr m"
  shows "\<forall>i<length (splitFileList files). \<exists>cats. decodeReply U (A i) = Inr cats"
    and "m = mergeClassificationResults
              (map (resolvedBatch U A (splitFileList files)) sched @
               (if guardPaths U A sched files = [] then []
                else [[(unclassified, matches unclassified (guardPaths U A sched files) files)]]))"
proof -
  define chunks where "chunks = splitFileList files"
  define d0 where "d0 = \<lparr>collected = [], errChan = [], processedSet = initProcessed files []\<rparr>"
  note s = perm_sched[OF perm, folded chunks_def]
  from ok obtain d where d: "runWorkers U A chunks sched d0 = Some d" "errChan d = []"
    by (auto simp: ClassifyFiles_def processChunksConcurrently_def chunks_def d0_def Let_def
        split: option.splits list.splits)
  have np: "\<forall>i\<in>set sched. i < length chunks \<and> decodeReply U (A i) \<noteq> Inl Panic"
  proof
    fix i assume i: "i \<in> set sched"
    then have n: "i < length chunks" using s(1) by simp
    moreover have "decodeReply U (A i) \<noteq> Inl Panic"
    proof
      assume "decodeReply U (A i) = Inl Panic"
      with i n have "runWorkers U A chunks sched d0 = None" by (rule runWorkers_panic)
      with d(1) show False by simp
    qed
    ultimately show "i < length chunks \<and> decodeReply U (A i) \<noteq> Inl Panic" by simp
  qed
  from runWorkers_errors[OF np, of d0] d have be: "batchErrors U A sched = []"
    by (auto simp: d0_def)
  have all: "\<exists>cats. decodeReply U (A i) = Inr cats" if "i \<in> set sched" for i
  proof (cases "decodeReply U (A i)")
    case (Inl e)
    with np that obtain msg where "decodeReply U (A i) = Inl (Failure msg)"
      by (cases e) auto
    from batchErrors_first[of i sched U A msg] that this be show ?thesis by auto
  next
    case (Inr cats)
    then show ?thesis by blast
  qed
  then show "\<forall>i<length (splitFileList files). \<exists>cats. decodeReply U (A i) = Inr cats"
    using s(1) by (simp add: chunks_def)
  have good: "\<forall>i\<in>set sched. i < length chunks \<and>
             (\<exists>cats. decodeReply U (A i) = Inr cats \<and> distinct (map fst cats))"
    using all s(1) maps by (fastforce simp: decodesToMaps_def chunks_def)
  define H where "H = concat (map (batchHits U A chunks) sched)"
  from runWorkers_success[OF good, of d0] d(1)
  have dd: "collected d = map (resolvedBatch U A chunks) sched"
    "processedSet d = markAll H (initProcessed files [])"
    by (auto simp: d0_def H_def)
  have ip: "initProcessed files [] = map (\<lambda>f. (Path f, False)) files"
    using initProcessed_fresh[OF dist, of "[]"] by simp
  have Hsub: "set H \<subseteq> Path ` set files"
  proof
    fix p assume "p \<in> set H"
    then obtain i where i: "i \<in> set sched" "p \<in> set (batchHits U A chunks i)"
      by (auto simp: H_def)
    then have "p \<in> Path ` set (chunks ! i)" using batchHits_subset by blast
    moreover have "set (chunks ! i) \<subseteq> set files"
      using i(1) s(1) chunk_subset[of i files] by (simp add: chunks_def)
    ultimately show "p \<in> Path ` set files" by blast
  qed
  have "markAll H (map (\<lambda>f. (Path f, False)) files)
      = map (\<lambda>(p, b). (p, b \<or> p \<in> set H)) (map (\<lambda>f. (Path f, False)) files)"
    using dist Hsub by (intro markAll_map) (auto simp: comp_def image_image)
  then have pf: "processedSet d = map (\<lambda>f. (Path f, Path f \<in> set H)) files"
    by (simp add: dd(2) ip comp_def)
  have un: "map fst (filter (\<lambda>(p, b). \<not> b) (processedSet d)) = guardPaths U A sched files"
    unfolding pf guardPaths_def H_def[symmetric, unfolded chunks_def]
    by (induction files) (auto simp: H_def chunks_def)
  have hu: "handleUnclassifiedFiles files (processedSet d) =
      (if guardPaths U A sched files = [] then []
       else [(unclassified, matches unclassified (guardPaths U A sched files) files)])"
    unfolding handleUnclassifiedFiles_matches Let_def un by simp
  from ok d dd(1) show "m = mergeClassificationResults
              (map (resolvedBatch U A (splitFileList files)) sched @
               (if guardPaths U A sched files = [] then []
                else [[(unclassified, matches unclassified (guardPaths U A sched files) files)]]))"
    by (auto simp: ClassifyFiles_def processChunksConcurrently_def chunks_def[symmetric]
        d0_def[symmetric] hu Let_def)
qed












lemma in_entriesOf: "(c, f) \<in> set (entriesOf m) \<longleftrightarrow> (\<exists>fs. (c, fs) \<in> set m \<and> f \<in> set fs)"
  by (induction m) auto

lemma set_entriesOf_merge:
  "set (entriesOf (mergeClassificationResults rs)) = set (concat (map entriesOf rs))"
  using entriesOf_merge[of rs] by (rule mset_eq_setD)



text \<open>
  Claim C2, as the code has it. Let the input paths be pairwise distinct, let no reply
  list a path of its batch under two different categories, and let \<open>ClassifyFiles\<close>
  return a map. Then no path appears in the lists of two different categories of it.
\<close>

theorem ClassifyFiles_no_duplication:
  assumes dist: "distinct (map Path files)"
    and perm: "mset sched = mset [0..<length (splitFileList files)]"
    and maps: "decodesToMaps U A (length (splitFileList files))"
    and one: "oneCategoryPerPath U A (splitFileList files)"
    and ok: "ClassifyFiles U A sched files = Inr m"
  shows "\<forall>c fs c' fs'. (c, fs) \<in> set m \<and> (c', fs') \<in> set m \<and> c \<noteq> c' \<longrightarrow>
           Path ` set fs \<inter> Path ` set fs' = {}"
proof (intro allI impI, elim conjE, rule ccontr)
  fix c fs c' fs'
  assume m: "(c, fs) \<in> set m" "(c', fs') \<in> set m" and ne: "c \<noteq> c'"
    and "Path ` set fs \<inter> Path ` set fs' \<noteq> {}"
  then obtain f f' where ff: "f \<in> set fs" "f' \<in> set fs'" "Path f = Path f'" by force
  define chunks where "chunks = splitFileList files"
  define H where "H = concat (map (batchHits U A chunks) sched)"
  define G where "G = guardPaths U A sched files"
  note s = perm_sched[OF perm, folded chunks_def]
  have G: "set G \<inter> set H = {}" by (auto simp: G_def guardPaths_def H_def chunks_def)
  have origin: "(\<exists>i cats ps. i < length chunks \<and> decodeReply U (A i) = Inr cats \<and>
             (k, ps) \<in> set cats \<and> Path g \<in> set ps \<and> Path g \<in> Path ` set (chunks ! i) \<and>
             Path g \<in> set H)
         \<or> (k = unclassified \<and> Path g \<in> set G)"
    if "(k, gs) \<in> set m" "g \<in> set gs" for k gs g
  proof -
    from that have "(k, g) \<in> set (entriesOf m)" unfolding in_entriesOf by blast
    then have "(k, g) \<in> set (concat (map entriesOf
         (map (resolvedBatch U A chunks) sched @
          (if G = [] then [] else [[(unclassified, matches unclassified G files)]]))))"
      unfolding ClassifyFiles_success(2)[OF perm maps dist ok] chunks_def G_def
        set_entriesOf_merge .
    then consider i where "i \<in> set sched" "(k, g) \<in> set (entriesOf (resolvedBatch U A chunks i))"
      | "k = unclassified" "g \<in> set (matches unclassified G files)"
      by (auto split: if_splits)
    then show ?thesis
    proof cases
      case 1
      then have i: "i < length chunks" using s(1) by simp
      from 1(2) obtain cats where cats: "decodeReply U (A i) = Inr cats"
        "(k, g) \<in> set (entriesOf (batchResult cats (chunks ! i)))"
        by (auto simp: resolvedBatch_def split: sum.splits)
      from entries_resolved_set[OF cats(2)[unfolded batchResult_def]]
      obtain ps where ps: "(k, ps) \<in> set cats" "Path g \<in> set ps" "Path g \<in> Path ` set (chunks ! i)"
        by blast
      then have "Path g \<in> set (batchHits U A chunks i)"
        using cats(1) by (force simp: batchHits_def hits_def)
      with 1(1) have "Path g \<in> set H" by (auto simp: H_def)
      with i cats(1) ps show ?thesis by blast
    next
      case 2
      from 2(2) have "Path g \<in> set (map Path (matches unclassified G files))" by simp
      then have "Path g \<in> set G" unfolding matches_paths by simp
      with 2(1) show ?thesis by blast
    qed
  qed
  from origin[OF m(1) ff(1)] origin[OF m(2) ff(2)] ff(3) ne G
  consider i cats ps j cats' ps' where
      "i < length chunks" "decodeReply U (A i) = Inr cats" "(c, ps) \<in> set cats"
      "Path f \<in> set ps" "Path f \<in> Path ` set (chunks ! i)"
      "j < length chunks" "decodeReply U (A j) = Inr cats'" "(c', ps') \<in> set cats'"
      "Path f \<in> set ps'" "Path f \<in> Path ` set (chunks ! j)"
    by (metis (no_types, lifting) disjoint_iff)
  then show False
  proof cases
    case 1
    from chunks_disjoint[OF dist, of i j "Path f"] 1 have "i = j" by (simp add: chunks_def)
    with 1 have "cats' = cats" by simp
    with 1 one ne show False
      unfolding oneCategoryPerPath_def chunks_def[symmetric] by blast
  qed
qed


subsection \<open>Worked calls\<close>


text \<open>
  Claim C2 as stated fails when a reply lists a path under two categories: the resolver
  appends the record to both lists, and the merged map has the path under both.
\<close>

theorem ClassifyFiles_two_categories_one_path:
  "ClassifyFiles
       (unmarshalOf (str ''{\"d\":[\"a\"],\"e\":[\"a\"]}'') [(str ''d'', [str ''a'']), (str ''e'', [str ''a''])])
       (\<lambda>i. answer (str ''{\"d\":[\"a\"],\"e\":[\"a\"]}'')) [0] [newFile ''a'']
     = Inr [(str ''d'', [\<lparr>Path = str ''a'', Category = str ''d''\<rparr>]),
            (str ''e'', [\<lparr>Path = str ''a'', Category = str ''e''\<rparr>])] \<and>
   str ''d'' \<noteq> str ''e'' \<and>
   Path \<lparr>Path = str ''a'', Category = str ''d''\<rparr> = Path \<lparr>Path = str ''a'', Category = str ''e''\<rparr>"
  by (simp add: eval_defs)

lemma all_less_1: "(\<forall>i<Suc 0. P i) \<longleftrightarrow> P 0"
  by auto



text \<open>The call on three files and a reply with two categories of one path each.\<close>

theorem ClassifyFiles_no_duplication_witness:
  "ClassifyFiles
       (unmarshalOf (str ''{\"d\":[\"a\"],\"e\":[\"b\"]}'') [(str ''d'', [str ''a'']), (str ''e'', [str ''b''])])
       (\<lambda>i. answer (str ''{\"d\":[\"a\"],\"e\":[\"b\"]}'')) [0] [newFile ''a'', newFile ''b'', newFile ''c'']
     = Inr [(str ''d'', [\<lparr>Path = str ''a'', Category = str ''d''\<rparr>]),
            (str ''e'', [\<lparr>Path = str ''b'', Category = str ''e''\<rparr>]),
            (unclassified, [\<lparr>Path = str ''c'', Category = unclassified\<rparr>])] \<and>
   str ''d'' \<noteq> str ''e'' \<and>
   Path ` set [\<lparr>Path = str ''a'', Category = str ''d''\<rparr>]
     \<inter> Path ` set [\<lparr>Path = str ''b'', Category = str ''e''\<rparr>] = {}"
proof -
  let ?cats = "[(str ''d'', [str ''a'']), (str ''e'', [str ''b''])]"
  let ?U = "unmarshalOf (str ''{\"d\":[\"a\"],\"e\":[\"b\"]}'') ?cats"
  let ?A = "\<lambda>i::nat. answer (str ''{\"d\":[\"a\"],\"e\":[\"b\"]}'')"
  let ?files = "[newFile ''a'', newFile ''b'', newFile ''c'']"
  let ?m = "[(str ''d'', [\<lparr>Path = str ''a'', Category = str ''d''\<rparr>]),
            (str ''e'', [\<lparr>Path = str ''b'', Category = str ''e''\<rparr>]),
            (unclassified, [\<lparr>Path = str ''c'', Category = unclassified\<rparr>])]"
  have chunks: "splitFileList ?files = [?files]" by (simp add: eval_defs)
  have reply: "decodeReply ?U (?A 0) = Inr ?cats" by (simp add: eval_defs)
  have d: "str ''d'' \<noteq> str ''e''" "str ''a'' \<noteq> str ''b''" by (simp_all add: str_def)
  have 1: "distinct (map Path ?files)" by (simp add: eval_defs)
  have 2: "mset [0] = mset [0..<length (splitFileList ?files)]" by (simp add: chunks)
  have 3: "decodesToMaps ?U ?A (length (splitFileList ?files))"
    by (simp add: chunks decodesToMaps_def all_less_1 reply d)
  have 4: "oneCategoryPerPath ?U ?A (splitFileList ?files)"
    unfolding oneCategoryPerPath_def chunks using d by (auto simp: all_less_1 reply)
  have 5: "ClassifyFiles ?U ?A [0] ?files = Inr ?m" by (simp add: eval_defs)
  have 6: "(str ''d'', [\<lparr>Path = str ''a'', Category = str ''d''\<rparr>]) \<in> set ?m"
    "(str ''e'', [\<lparr>Path = str ''b'', Category = str ''e''\<rparr>]) \<in> set ?m" by simp_all
  from ClassifyFiles_no_duplication[OF 1 2 3 4 5] 6 d(1)
  have "Path ` set [\<lparr>Path = str ''a'', Category = str ''d''\<rparr>]
     \<inter> Path ` set [\<lparr>Path = str ''b'', Category = str ''e''\<rparr>] = {}"
    by blast
  with 5 d(1) show ?thesis by blast
qed

text \<open>The resolver on a batch of two files and a reply that lists one of them and a path the batch does not have.\<close>

theorem resolver_scoped_and_tolerant_witness:
  "decodeReply (unmarshalOf (str ''{\"d\":[\"a\",\"z\"]}'') [(str ''d'', [str ''a'', str ''z''])])
       (answer (str ''{\"d\":[\"a\",\"z\"]}''))
     = Inr [(str ''d'', [str ''a'', str ''z''])] \<and>
   processClassificationChunk
       (unmarshalOf (str ''{\"d\":[\"a\",\"z\"]}'') [(str ''d'', [str ''a'', str ''z''])])
       (answer (str ''{\"d\":[\"a\",\"z\"]}''))
       [newFile ''a'', newFile ''b''] [(str ''a'', False), (str ''b'', False)]
     = Inr ([(str ''d'', [\<lparr>Path = str ''a'', Category = str ''d''\<rparr>])],
            [(str ''a'', True), (str ''b'', False)]) \<and>
   batchResult [(str ''d'', [str ''a'', str ''z''])] [newFile ''a'', newFile ''b'']
     = [(str ''d'', [\<lparr>Path = str ''a'', Category = str ''d''\<rparr>])]"
proof -
  let ?cats = "[(str ''d'', [str ''a'', str ''z''])]"
  let ?U = "unmarshalOf (str ''{\"d\":[\"a\",\"z\"]}'') ?cats"
  let ?T = "answer (str ''{\"d\":[\"a\",\"z\"]}'')"
  have 1: "decodeReply ?U ?T = Inr ?cats" by (simp add: eval_defs)
  have 2: "distinct (map fst ?cats)" by simp
  have 3: "processClassificationChunk ?U ?T [newFile ''a'', newFile ''b'']
             [(str ''a'', False), (str ''b'', False)]
     = Inr ([(str ''d'', [\<lparr>Path = str ''a'', Category = str ''d''\<rparr>])],
            [(str ''a'', True), (str ''b'', False)])"
    by (simp add: eval_defs)
  from resolver_scoped_and_tolerant[of ?U ?T ?cats "[newFile ''a'', newFile ''b'']"
      "[(str ''a'', False), (str ''b'', False)]"] 1 2
  obtain processed' where "processClassificationChunk ?U ?T [newFile ''a'', newFile ''b'']
             [(str ''a'', False), (str ''b'', False)]
     = Inr (batchResult ?cats [newFile ''a'', newFile ''b''], processed')"
    by blast
  with 3 have "batchResult ?cats [newFile ''a'', newFile ''b'']
     = [(str ''d'', [\<lparr>Path = str ''a'', Category = str ''d''\<rparr>])]" by simp
  with 1 3 show ?thesis by blast
qed

text \<open>The call on 151 files, whose first batch is answered and whose second batch fails: the result of the first batch is dropped.\<close>

theorem ClassifyFiles_no_partial_commit_witness:
  "length (splitFileList (replicate 151 aFile)) = 2 \<and>
   (\<exists>r. processClassificationChunk
          (unmarshalOf (str ''{\"d\":[\"a.txt\"]}'') [(str ''d'', [str ''a.txt''])])
          (secondBatchFails 0) (splitFileList (replicate 151 aFile) ! 0) [] = Inr r) \<and>
   processClassificationChunk
       (unmarshalOf (str ''{\"d\":[\"a.txt\"]}'') [(str ''d'', [str ''a.txt''])])
       (secondBatchFails 1) (splitFileList (replicate 151 aFile) ! 1) []
     = Inl (Failure (apiCallFailed (str ''bad JSON''))) \<and>
   ClassifyFiles (unmarshalOf (str ''{\"d\":[\"a.txt\"]}'') [(str ''d'', [str ''a.txt''])])
       secondBatchFails [0, 1] (replicate 151 aFile)
     = Inl (Failure (batchFailed 2 (apiCallFailed (str ''bad JSON''))))"
proof -
  let ?U = "unmarshalOf (str ''{\"d\":[\"a.txt\"]}'') [(str ''d'', [str ''a.txt''])]"
  let ?A = secondBatchFails
  let ?F = "replicate 151 aFile"
  let ?e = "apiCallFailed (str ''bad JSON'')"
  have s: "splitFileList ?F = [replicate 150 aFile, replicate 1 aFile]"
    by (simp add: splitFileList_def splitFrom.simps[of _ "replicate 151 aFile"]
        maxFilesPerChunk_def slice_def Let_def)
  have r0: "decodeReply ?U (?A 0) = Inr [(str ''d'', [str ''a.txt''])]"
    by (simp add: eval_defs secondBatchFails_def)
  have r1: "decodeReply ?U (?A 1) = Inl (Failure ?e)"
    by (simp add: eval_defs secondBatchFails_def)
  have p0: "\<exists>r. processClassificationChunk ?U (?A 0) (splitFileList ?F ! 0) [] = Inr r"
    using r0 by (simp add: processClassificationChunk_def)
  have p1: "processClassificationChunk ?U (?A 1) (splitFileList ?F ! 1) [] = Inl (Failure ?e)"
    using r1 by (simp add: processClassificationChunk_error)
  have 1: "mset [0, 1] = mset [0..<length (splitFileList ?F)]"
    by (simp add: s upt_rec)
  have 2: "1 < length (splitFileList ?F)" by (simp add: s)
  from ClassifyFiles_no_partial_commit[of "[0, 1]" ?F 1 ?U ?A "[]" "Failure ?e"] 1 2 p1
  consider
      (panic) j where "j < length (splitFileList ?F)"
        "processClassificationChunk ?U (?A j) (splitFileList ?F ! j) [] = Inl Panic"
    | (failed) pre j post msg where "[0, 1] = pre @ j # post"
        "\<forall>k\<in>set pre. \<exists>r. processClassificationChunk ?U (?A k) (splitFileList ?F ! k) [] = Inr r"
        "processClassificationChunk ?U (?A j) (splitFileList ?F ! j) [] = Inl (Failure msg)"
        "ClassifyFiles ?U ?A [0, 1] ?F = Inl (Failure (batchFailed (j + 1) msg))"
    by blast
  then have c: "ClassifyFiles ?U ?A [0, 1] ?F = Inl (Failure (batchFailed 2 ?e))"
  proof cases
    case panic
    from panic(1) have "j = 0 \<or> j = 1" by (auto simp: s)
    with panic(2) p0 p1 show ?thesis by auto
  next
    case failed
    from failed(1) have "j = 0 \<or> j = 1"
      by (auto simp: Cons_eq_append_conv)
    then show ?thesis
    proof
      assume "j = 0"
      with failed(3) p0 show ?thesis by auto
    next
      assume j: "j = 1"
      with failed(3) p1 have "msg = ?e" by simp
      moreover have "j + 1 = 2" using j by simp
      ultimately show ?thesis using failed(4) by (simp only:)
    qed
  qed
  from p0 p1 c s show ?thesis by simp
qed

text \<open>
  Claim C8. The claim asks that a call of which some batch returns an error returns that
  error and no map. The code departs from it when another batch is answered with no
  choice: \<open>processClassificationChunk\<close> indexes the first choice without a check
  (line 345), the worker panics, and the call returns neither the error nor a map. On
  151 files, whose first batch fails at once with the message \<^verbatim>\<open>bad JSON\<close> and whose
  second batch is answered with no choice, the call panics in both orders of completion.
  Beside it, the call whose first batch is answered and whose second batch fails the
  same way: it returns the error of batch 2, whose text is that of lines 412 and 341.
\<close>

theorem ClassifyFiles_panics_beside_a_failed_batch:
  "length (splitFileList (replicate 151 aFile)) = 2 \<and>
   processClassificationChunk (unmarshalOf (str ''{\"d\":[\"a.txt\"]}'') [(str ''d'', [str ''a.txt''])])
       (errorThenNoChoices 0) (splitFileList (replicate 151 aFile) ! 0) []
     = Inl (Failure (apiCallFailed (str ''bad JSON''))) \<and>
   processClassificationChunk (unmarshalOf (str ''{\"d\":[\"a.txt\"]}'') [(str ''d'', [str ''a.txt''])])
       (errorThenNoChoices 1) (splitFileList (replicate 151 aFile) ! 1) []
     = Inl Panic \<and>
   ClassifyFiles (unmarshalOf (str ''{\"d\":[\"a.txt\"]}'') [(str ''d'', [str ''a.txt''])])
       errorThenNoChoices [0, 1] (replicate 151 aFile) = Inl Panic \<and>
   ClassifyFiles (unmarshalOf (str ''{\"d\":[\"a.txt\"]}'') [(str ''d'', [str ''a.txt''])])
       errorThenNoChoices [1, 0] (replicate 151 aFile) = Inl Panic \<and>
   ClassifyFiles (unmarshalOf (str ''{\"d\":[\"a.txt\"]}'') [(str ''d'', [str ''a.txt''])])
       secondBatchFails [0, 1] (replicate 151 aFile)
     = Inl (Failure ([22788, 29702, 31532] @ str ''2'' @ [25209, 25991, 20214, 22833, 36133]
                       @ str '': API'' @ [35843, 29992, 22833, 36133] @ str '': bad JSON''))"
proof -
  let ?U = "unmarshalOf (str ''{\"d\":[\"a.txt\"]}'') [(str ''d'', [str ''a.txt''])]"
  let ?F = "replicate 151 aFile"
  have s: "splitFileList ?F = [replicate 150 aFile, replicate 1 aFile]"
    by (simp add: splitFileList_def splitFrom.simps[of _ "replicate 151 aFile"]
        maxFilesPerChunk_def slice_def Let_def)
  have r0: "decodeReply ?U (errorThenNoChoices 0) = Inl (Failure (apiCallFailed (str ''bad JSON'')))"
    by (simp add: eval_defs errorThenNoChoices_def)
  have r1: "decodeReply ?U (errorThenNoChoices 1) = Inl Panic"
    by (simp add: eval_defs errorThenNoChoices_def)
  have p0: "processClassificationChunk ?U (errorThenNoChoices 0) (splitFileList ?F ! 0) []
      = Inl (Failure (apiCallFailed (str ''bad JSON'')))"
    using r0 by (simp add: processClassificationChunk_error)
  have p1: "processClassificationChunk ?U (errorThenNoChoices 1) (splitFileList ?F ! 1) [] = Inl Panic"
    using r1 by (simp add: processClassificationChunk_error)
  have none: "runWorkers ?U errorThenNoChoices (splitFileList ?F) sched d = None"
    if "1 \<in> set sched" for sched d
    using that _ r1 by (rule runWorkers_panic) (simp add: s)
  have n1: "runWorkers ?U errorThenNoChoices (splitFileList ?F) [0, 1] d = None" for d
    by (rule none) simp
  have n2: "runWorkers ?U errorThenNoChoices (splitFileList ?F) [1, 0] d = None" for d
    by (rule none) simp
  have c1: "ClassifyFiles ?U errorThenNoChoices [0, 1] ?F = Inl Panic"
    by (simp only: ClassifyFiles_def processChunksConcurrently_def Let_def n1 option.case sum.case)
  have c2: "ClassifyFiles ?U errorThenNoChoices [1, 0] ?F = Inl Panic"
    by (simp only: ClassifyFiles_def processChunksConcurrently_def Let_def n2 option.case sum.case)
  have m: "batchFailed 2 (apiCallFailed (str ''bad JSON''))
      = [22788, 29702, 31532] @ str ''2'' @ [25209, 25991, 20214, 22833, 36133]
          @ str '': API'' @ [35843, 29992, 22833, 36133] @ str '': bad JSON''"
    by (simp add: batchFailed_def apiCallFailed_def decimal.simps str_def)
  have c3: "ClassifyFiles ?U secondBatchFails [0, 1] ?F
      = Inl (Failure (batchFailed 2 (apiCallFailed (str ''bad JSON''))))"
    using ClassifyFiles_no_partial_commit_witness by blast
  from s p0 p1 c1 c2 c3 show ?thesis unfolding m by simp
qed

end
